theory Spec2Isabelle
  imports Main
begin

section \<open>The abstract syntax tree as a store of nodes\<close>

text \<open>
  The passes work on clang AST nodes through pointers: \<open>VisitCompoundStmt\<close> copies the
  pointers of a block's children, calls \<open>setElse\<close> on \<open>IfStmt\<close> nodes and creates one
  new \<open>CompoundStmt\<close>. A node is therefore an address, and the store maps every address
  to the node that lives there. Conditions are kept as values of a type \<open>'c\<close> (the pass
  only reads them), every statement that is neither an \<open>if\<close> nor a block is
  \<open>OtherStmt\<close>.
\<close>

type_synonym addr = nat

datatype ('c, 'x) stmt =
    IfStmt (getCond: 'c) (getThen: addr) (getElse: "addr option")
  | CompoundStmt (body_of: "addr list")
  | OtherStmt 'x

text \<open>\<open>IfStmt::setElse\<close>; the receiver is an \<open>IfStmt *\<close>, other nodes never reach it.\<close>

fun setElse :: "('c, 'x) stmt \<Rightarrow> addr \<Rightarrow> ('c, 'x) stmt" where
  "setElse (IfStmt c t e) s = IfStmt c t (Some s)"
| "setElse (CompoundStmt b) s = CompoundStmt b"
| "setElse (OtherStmt x) s = OtherStmt x"

text \<open>
  The state a pass works on: the store, the allocation pointer of the AST context (the
  address the next created node gets), the substitution map of the
  \<open>TransformVisitor\<close> and the stop flag read by \<open>Stopped()\<close>.
\<close>

record ('c, 'x) ast_state =
  heap :: "addr \<Rightarrow> ('c, 'x) stmt"
  next_addr :: addr
  substitutions :: "addr \<rightharpoonup> addr"
  stopped :: bool

text \<open>\<open>ASTBuilder::CreateCompoundStmt\<close>: a new block node with the given children.\<close>

definition CreateCompoundStmt ::
  "addr list \<Rightarrow> ('c, 'x) ast_state \<Rightarrow> addr \<times> ('c, 'x) ast_state" where
  "CreateCompoundStmt b st =
     (next_addr st,
      st\<lparr>heap := (heap st)(next_addr st := CompoundStmt b), next_addr := Suc (next_addr st)\<rparr>)"

section \<open>Solver formulas\<close>

text \<open>
  The formulas the pass hands to \<open>Prove\<close>: \<open>Z3Cond c\<close> is what \<open>GetZ3Cond\<close> returns for
  an \<open>if\<close> with condition \<open>c\<close>, the other constructors are the operators the pass
  applies itself (\<open>!\<close>, \<open>&&\<close>, \<open>z3::mk_or\<close>).
\<close>

datatype 'c z3expr =
    Z3Cond 'c
  | Z3Not "'c z3expr"
  | Z3And "'c z3expr" "'c z3expr"
  | Z3MkOr "'c z3expr list"

definition GetZ3Cond :: "('c, 'x) stmt \<Rightarrow> 'c z3expr" where
  "GetZ3Cond ifstmt = Z3Cond (getCond ifstmt)"

text \<open>The truth value of a formula when \<open>v\<close> gives the truth value of each condition.\<close>

fun z3_eval :: "('c \<Rightarrow> bool) \<Rightarrow> 'c z3expr \<Rightarrow> bool" where
  "z3_eval v (Z3Cond c) = v c"
| "z3_eval v (Z3Not e) = (\<not> z3_eval v e)"
| "z3_eval v (Z3And a b) = (z3_eval v a \<and> z3_eval v b)"
| "z3_eval v (Z3MkOr es) = (\<exists>e \<in> set es. z3_eval v e)"

section \<open>ReachBasedRefine::VisitCompoundStmt\<close>

text \<open>
  The scanning loop (source lines 40 to 72). \<open>Prove\<close> is the solver query of
  \<open>rellic/AST/Util.h\<close>, a parameter here. The loop runs until \<open>i\<close> reaches the end of
  \<open>body\<close> (result \<open>None\<close>: \<open>done_something\<close> stays false) or until the chain in
  \<open>ifs\<close> is complete at index \<open>i\<close> (result \<open>Some (i, ifs)\<close>: control reaches line 96).
  \<open>ResetChain\<close> empties \<open>ifs\<close> and \<open>conds\<close>.
\<close>

function scan ::
  "('c z3expr \<Rightarrow> bool) \<Rightarrow> (addr \<Rightarrow> ('c, 'x) stmt) \<Rightarrow> addr list \<Rightarrow>
   addr list \<Rightarrow> 'c z3expr list \<Rightarrow> nat \<Rightarrow> (nat \<times> addr list) option" where
  "scan Prove h body ifs conds i =
     (if i < length body then
        (case h (body ! i) of
           IfStmt c t e \<Rightarrow>
             (let ifs1 = ifs @ [body ! i];
                  cond = GetZ3Cond (h (body ! i))
              in if e \<noteq> None then scan Prove h body [] [] (Suc i)
                 else if \<not> Prove (Z3Not (Z3And cond (Z3MkOr conds)))
                 then scan Prove h body [] [] (Suc i)
                 else
                   (let conds1 = conds @ [GetZ3Cond (h (body ! i))];
                        is_complete = Prove (Z3MkOr conds1)
                    in if length ifs1 \<le> 2 \<or> \<not> is_complete
                       then scan Prove h body ifs1 conds1 (Suc i)
                       else Some (i, ifs1)))
         | CompoundStmt b \<Rightarrow> scan Prove h body [] [] (Suc i)
         | OtherStmt x \<Rightarrow> scan Prove h body [] [] (Suc i))
      else None)"
  by pat_completeness auto
termination
  by (relation "measure (\<lambda>(Prove, h, body, ifs, conds, i). length body - i)") auto

declare scan.simps [simp del]

text \<open>
  The linking loop (source lines 96 to 107): \<open>for (auto stmt : ifs)\<close> with the pointer
  comparisons against \<open>ifs.front()\<close> and \<open>ifs.back()\<close>; \<open>last_if\<close> is the node
  whose else branch is set next.
\<close>

fun link_chain ::
  "(addr \<Rightarrow> ('c, 'x) stmt) \<Rightarrow> addr list \<Rightarrow> addr \<Rightarrow> addr list \<Rightarrow> (addr \<Rightarrow> ('c, 'x) stmt)" where
  "link_chain h ifs last_if [] = h"
| "link_chain h ifs last_if (stmt # rest) =
     (if stmt = hd ifs then link_chain h ifs last_if rest
      else if stmt = last ifs
      then link_chain (h(last_if := setElse (h last_if) (getThen (h stmt)))) ifs last_if rest
      else link_chain (h(last_if := setElse (h last_if) stmt)) ifs stmt rest)"

text \<open>\<open>std::vector::erase\<close> of the range \<open>[first, last)\<close> and of one position.\<close>

definition erase_range :: "'a list \<Rightarrow> nat \<Rightarrow> nat \<Rightarrow> 'a list" where
  "erase_range xs first lst = take first xs @ drop lst xs"

definition erase_at :: "'a list \<Rightarrow> nat \<Rightarrow> 'a list" where
  "erase_at xs pos = take pos xs @ drop (Suc pos) xs"

text \<open>
  The whole visitor. The inner \<open>erase\<close> returns the position \<open>start_delete\<close>, where
  the last chain member now stands, and the outer \<open>erase\<close> removes it. The result is
  the returned flag \<open>!Stopped()\<close> and the new state.
\<close>

definition VisitCompoundStmt ::
  "('c z3expr \<Rightarrow> bool) \<Rightarrow> addr \<Rightarrow> ('c, 'x) ast_state \<Rightarrow> bool \<times> ('c, 'x) ast_state" where
  "VisitCompoundStmt Prove compound st =
     (let body = body_of (heap st compound)
      in case scan Prove (heap st) body [] [] 0 of
           None \<Rightarrow> (\<not> stopped st, st)
         | Some (i, ifs) \<Rightarrow>
             (let h1 = link_chain (heap st) ifs (ifs ! 0) ifs;
                  start_delete = i - (length ifs - 2);
                  end_delete = i;
                  body1 = erase_at (erase_range body start_delete end_delete) start_delete;
                  (new, st1) = CreateCompoundStmt body1 (st\<lparr>heap := h1\<rparr>)
              in (\<not> stopped st,
                  st1\<lparr>substitutions := (substitutions st1)(compound \<mapsto> new)\<rparr>)))"

text \<open>
  The outcome of the scanning loop for a block: \<open>Some (i, ifs)\<close> when the visitor fuses
  the chain \<open>ifs\<close> that ends at index \<open>i\<close>, \<open>None\<close> when it fuses nothing.
\<close>

definition fused_chain ::
  "('c z3expr \<Rightarrow> bool) \<Rightarrow> addr \<Rightarrow> ('c, 'x) ast_state \<Rightarrow> (nat \<times> addr list) option" where
  "fused_chain Prove compound st = scan Prove (heap st) (body_of (heap st compound)) [] [] 0"

text \<open>An \<open>if\<close> statement without an else branch.\<close>

definition is_plain_if :: "('c, 'x) stmt \<Rightarrow> bool" where
  "is_plain_if s =
     (case s of IfStmt c t e \<Rightarrow> e = None | CompoundStmt b \<Rightarrow> False | OtherStmt x \<Rightarrow> False)"

text \<open>The solver formulas of the conditions of a list of \<open>if\<close> nodes, in order.\<close>

definition z3conds :: "(addr \<Rightarrow> ('c, 'x) stmt) \<Rightarrow> addr list \<Rightarrow> 'c z3expr list" where
  "z3conds h ifs = map (\<lambda>a. GetZ3Cond (h a)) ifs"

text \<open>
  The loop invariant of \<open>scan\<close>: \<open>ifs\<close> are the statements of \<open>body\<close> just before index
  \<open>i\<close>, all of them else-less \<open>if\<close> statements, and each was proved exclusive with the
  disjunction of the conditions before it.
\<close>

definition chain_ok ::
  "('c z3expr \<Rightarrow> bool) \<Rightarrow> (addr \<Rightarrow> ('c, 'x) stmt) \<Rightarrow> addr list \<Rightarrow> addr list \<Rightarrow> nat \<Rightarrow> bool" where
  "chain_ok Prove h body ifs i =
     (i \<le> length body \<and> (\<exists>pre. take i body = pre @ ifs) \<and>
      (\<forall>a \<in> set ifs. is_plain_if (h a)) \<and>
      (\<forall>k < length ifs.
         Prove (Z3Not (Z3And (GetZ3Cond (h (ifs ! k))) (Z3MkOr (z3conds h (take k ifs)))))))"

section \<open>Reading the store back as a tree\<close>

text \<open>
  The statement that stands at an address, as a value: the nodes reached through the
  then and else branches and the children of blocks. The first argument bounds the depth.
\<close>

datatype ('c, 'x) tree =
    TIf 'c "('c, 'x) tree" "('c, 'x) tree option"
  | TCompound "('c, 'x) tree list"
  | TOther 'x

fun tree_of :: "nat \<Rightarrow> (addr \<Rightarrow> ('c, 'x) stmt) \<Rightarrow> addr \<Rightarrow> ('c, 'x) tree option" where
  "tree_of 0 h a = None"
| "tree_of (Suc n) h a =
     (case h a of
        IfStmt c t e \<Rightarrow>
          (case tree_of n h t of
             None \<Rightarrow> None
           | Some tt \<Rightarrow>
               (case e of
                  None \<Rightarrow> Some (TIf c tt None)
                | Some ea \<Rightarrow>
                    (case tree_of n h ea of
                       None \<Rightarrow> None
                     | Some te \<Rightarrow> Some (TIf c tt (Some te)))))
      | CompoundStmt b \<Rightarrow>
          (let ts = map (tree_of n h) b
           in if list_all (\<lambda>t. t \<noteq> None) ts then Some (TCompound (map the ts)) else None)
      | OtherStmt x \<Rightarrow> Some (TOther x))"

text \<open>The addresses a node refers to, and the nodes reachable from an address.\<close>

fun children :: "('c, 'x) stmt \<Rightarrow> addr list" where
  "children (IfStmt c t e) = t # (case e of None \<Rightarrow> [] | Some a \<Rightarrow> [a])"
| "children (CompoundStmt b) = b"
| "children (OtherStmt x) = []"

fun subtree :: "nat \<Rightarrow> (addr \<Rightarrow> ('c, 'x) stmt) \<Rightarrow> addr \<Rightarrow> addr list" where
  "subtree 0 h a = [a]"
| "subtree (Suc n) h a = a # concat (map (subtree n h) (children (h a)))"

section \<open>The traversal of one pass run\<close>



section \<open>Conditions over one integer variable and their solver\<close>

text \<open>
  Modelled from the spec: the Expression-to-Formula Translator (\<open>Z3ConvVisitor\<close>) and the
  solver query \<open>Prove\<close> are not among the sources. The spec describes the query as a
  decision procedure that tests whether a formula is a tautology. For conditions that
  compare one integer variable \<open>x\<close> with constants (\<open>x == k\<close>, \<open>x >= k\<close>) the
  procedure below decides exactly that: the truth value of a formula can change only at
  a constant, so it tries every constant and its two neighbours. \<open>Prove_int\<close> lets \<open>x\<close>
  range over all integers, \<open>Prove_unsigned\<close> over the integers from \<open>0\<close> on.
\<close>

datatype cmp = EQ int | GE int

fun cmp_holds :: "int \<Rightarrow> cmp \<Rightarrow> bool" where
  "cmp_holds x (EQ k) = (x = k)"
| "cmp_holds x (GE k) = (k \<le> x)"

fun cmp_const :: "cmp \<Rightarrow> int" where
  "cmp_const (EQ k) = k"
| "cmp_const (GE k) = k"

fun consts_of :: "cmp z3expr \<Rightarrow> int list" where
  "consts_of (Z3Cond c) = [cmp_const c]"
| "consts_of (Z3Not e) = consts_of e"
| "consts_of (Z3And a b) = consts_of a @ consts_of b"
| "consts_of (Z3MkOr es) = concat (map consts_of es)"

definition samples :: "int list \<Rightarrow> int list" where
  "samples ks = concat (map (\<lambda>k. [k - 1, k, k + 1]) ks)"

definition Prove_int :: "cmp z3expr \<Rightarrow> bool" where
  "Prove_int f = list_all (\<lambda>x. z3_eval (cmp_holds x) f) (samples (0 # consts_of f))"

definition Prove_unsigned :: "cmp z3expr \<Rightarrow> bool" where
  "Prove_unsigned f =
     list_all (\<lambda>x. z3_eval (cmp_holds x) f)
       (filter (\<lambda>x. 0 \<le> x) (samples (0 # consts_of f)))"

text \<open>Two values of \<open>x\<close> that no comparison with a constant of \<open>ks\<close> tells apart.\<close>

definition same_side :: "int list \<Rightarrow> int \<Rightarrow> int \<Rightarrow> bool" where
  "same_side ks x y = (\<forall>k \<in> set ks. (x = k \<longleftrightarrow> y = k) \<and> (k \<le> x \<longleftrightarrow> k \<le> y))"

section \<open>Example blocks\<close>

text \<open>
  The block \<open>[ if(x==0){A} if(x==1){B} if(x>=2){C} ]\<close>: the block is node 0, the three
  \<open>if\<close> statements are nodes 1 to 3 and their branches nodes 4 to 6.
\<close>

definition literal_heap :: "addr \<Rightarrow> (cmp, string) stmt" where
  "literal_heap =
     (\<lambda>a. OtherStmt [])
       (0 := CompoundStmt [1, 2, 3],
        1 := IfStmt (EQ 0) 4 None, 2 := IfStmt (EQ 1) 5 None, 3 := IfStmt (GE 2) 6 None,
        4 := OtherStmt ''A'', 5 := OtherStmt ''B'', 6 := OtherStmt ''C'')"

definition literal_state :: "(cmp, string) ast_state" where
  "literal_state =
     \<lparr>heap = literal_heap, next_addr = 7, substitutions = Map.empty, stopped = False\<rparr>"

text \<open>The block \<open>[ if(x==0){A} if(x==0){B} ]\<close>: block 0, statements 1 and 2.\<close>

definition same_cond_heap :: "addr \<Rightarrow> (cmp, string) stmt" where
  "same_cond_heap =
     (\<lambda>a. OtherStmt [])
       (0 := CompoundStmt [1, 2],
        1 := IfStmt (EQ 0) 3 None, 2 := IfStmt (EQ 0) 4 None,
        3 := OtherStmt ''A'', 4 := OtherStmt ''B'')"

definition same_cond_state :: "(cmp, string) ast_state" where
  "same_cond_state =
     \<lparr>heap = same_cond_heap, next_addr = 5, substitutions = Map.empty, stopped = False\<rparr>"

text \<open>
  The block \<open>[ if(x==0){A} if(x>=1){B} ]\<close>: over an unsigned \<open>x\<close> its two conditions
  exclude each other and cover every value.
\<close>

definition pair_heap :: "addr \<Rightarrow> (cmp, string) stmt" where
  "pair_heap =
     (\<lambda>a. OtherStmt [])
       (0 := CompoundStmt [1, 2],
        1 := IfStmt (EQ 0) 3 None, 2 := IfStmt (GE 1) 4 None,
        3 := OtherStmt ''A'', 4 := OtherStmt ''B'')"

definition pair_state :: "(cmp, string) ast_state" where
  "pair_state =
     \<lparr>heap = pair_heap, next_addr = 5, substitutions = Map.empty, stopped = False\<rparr>"

text \<open>
  A block with statements around the chain:
  \<open>[ S; if(x==0){A} if(x==1){B} if(x>=2){C} T ]\<close>, with \<open>S\<close> node 7 and \<open>T\<close> node 8.
\<close>

definition framed_heap :: "addr \<Rightarrow> (cmp, string) stmt" where
  "framed_heap =
     (\<lambda>a. OtherStmt [])
       (0 := CompoundStmt [7, 1, 2, 3, 8],
        1 := IfStmt (EQ 0) 4 None, 2 := IfStmt (EQ 1) 5 None, 3 := IfStmt (GE 2) 6 None,
        4 := OtherStmt ''A'', 5 := OtherStmt ''B'', 6 := OtherStmt ''C'',
        7 := OtherStmt ''S'', 8 := OtherStmt ''T'')"

definition framed_state :: "(cmp, string) ast_state" where
  "framed_state =
     \<lparr>heap = framed_heap, next_addr = 9, substitutions = Map.empty, stopped = False\<rparr>"

text \<open>
  A block inside a block: the outer block 0 is \<open>[ if(x==0) {..} if(x==1) {} if(x>=2) {} ]\<close>
  and the then-branch of its first statement is the block 4, which again holds a chain
  of three statements (nodes 7 to 9). A traversal visits both blocks; the two states
  below are the results of visiting them in either order.
\<close>

definition nested_heap :: "addr \<Rightarrow> (cmp, string) stmt" where
  "nested_heap =
     (\<lambda>a. OtherStmt [])
       (0 := CompoundStmt [1, 2, 3],
        1 := IfStmt (EQ 0) 4 None, 2 := IfStmt (EQ 1) 5 None, 3 := IfStmt (GE 2) 6 None,
        4 := CompoundStmt [7, 8, 9], 5 := CompoundStmt [], 6 := CompoundStmt [],
        7 := IfStmt (EQ 0) 10 None, 8 := IfStmt (EQ 1) 11 None, 9 := IfStmt (GE 2) 12 None,
        10 := OtherStmt ''A'', 11 := OtherStmt ''B'', 12 := OtherStmt ''C'')"

definition nested_state :: "(cmp, string) ast_state" where
  "nested_state =
     \<lparr>heap = nested_heap, next_addr = 13, substitutions = Map.empty, stopped = False\<rparr>"

definition nested_inner_first :: "(cmp, string) ast_state" where
  "nested_inner_first =
     snd (VisitCompoundStmt Prove_unsigned 0 (snd (VisitCompoundStmt Prove_unsigned 4 nested_state)))"

definition nested_outer_first :: "(cmp, string) ast_state" where
  "nested_outer_first =
     snd (VisitCompoundStmt Prove_unsigned 4 (snd (VisitCompoundStmt Prove_unsigned 0 nested_state)))"



section \<open>StructFieldRenamer::VisitRecordDecl\<close>

text \<open>
  Debug-info metadata as far as the renamer reads it: a type is a composite type with
  its elements or some other type, an element is a derived type with its name or some
  other node. \<open>llvm::cast\<close> fails on a value of the wrong kind.
\<close>

datatype di_node = DIDerivedType (getName: string) | DIOtherNode

datatype di_type = DICompositeType (getElements: "di_node list") | DIOtherType

text \<open>
  The ways the visitor can fail: the \<open>CHECK\<close> of line 33 (it aborts the process with
  its message), a failed \<open>llvm::cast\<close>, and reading \<open>di_fields[i]\<close> past the end of the
  vector.
\<close>

datatype failure = CheckFailed string | CastFailed | OutOfBounds

text \<open>
  The state of the renamer: \<open>decls\<close> maps a declaration to its IR type, \<open>types\<close> maps an
  IR type to its debug-info type, and \<open>fields_of\<close> gives the names of the fields of a
  record declaration, in order. Both maps are read with \<open>operator[]\<close>, which returns a
  null pointer for a missing key; an entry that holds a null pointer and a missing entry
  are both \<open>None\<close>.
\<close>

record ('d, 'ty) renamer_state =
  decls :: "'d \<rightharpoonup> 'ty"
  types :: "'ty \<rightharpoonup> di_type"
  fields_of :: "'d \<Rightarrow> string list"

text \<open>The loop of line 48: every element is cast to a derived type and its name kept.\<close>

definition cast_elements :: "di_node list \<Rightarrow> failure + string list" where
  "cast_elements els =
     (if list_all (\<lambda>e. e \<noteq> DIOtherNode) els then Inr (map getName els) else Inl CastFailed)"

text \<open>
  The loop of lines 54 to 68, on the names of the fields: \<open>decl_fields ! i\<close> is the
  present name of the \<open>i\<close>-th field and \<open>setDeclName\<close> replaces it. The source reads
  \<open>di_fields[i]\<close> without comparing \<open>i\<close> with the size of \<open>di_fields\<close>.
\<close>

function rename_loop ::
  "string list \<Rightarrow> string set \<Rightarrow> nat \<Rightarrow> string list \<Rightarrow> failure + string list" where
  "rename_loop di_fields seen_names i decl_fields =
     (if i < length decl_fields then
        (if i < length di_fields then
           (let name = di_fields ! i
            in if name \<notin> seen_names
               then rename_loop di_fields (insert name seen_names) (Suc i)
                      (decl_fields[i := name])
               else (let old_name = decl_fields ! i
                     in rename_loop di_fields seen_names (Suc i)
                          (decl_fields[i := name @ ''_'' @ old_name])))
         else Inl OutOfBounds)
      else Inr decl_fields)"
  by pat_completeness auto
termination
  by (relation "measure (\<lambda>(di_fields, seen_names, i, decl_fields). length decl_fields - i)") auto

declare rename_loop.simps [simp del]

definition VisitRecordDecl ::
  "'d \<Rightarrow> ('d, 'ty) renamer_state \<Rightarrow> failure + (bool \<times> ('d, 'ty) renamer_state)" where
  "VisitRecordDecl decl st =
     (case decls st decl of
        None \<Rightarrow> Inl (CheckFailed ''Type information not present for declaration'')
      | Some type \<Rightarrow>
          (case types st type of
             None \<Rightarrow> Inr (True, st)
           | Some di \<Rightarrow>
               (case di of
                  DIOtherType \<Rightarrow> Inl CastFailed
                | DICompositeType els \<Rightarrow>
                    (case cast_elements els of
                       Inl e \<Rightarrow> Inl e
                     | Inr di_fields \<Rightarrow>
                         (case rename_loop di_fields {} 0 (fields_of st decl) of
                            Inl e \<Rightarrow> Inl e
                          | Inr names \<Rightarrow>
                              Inr (True, st\<lparr>fields_of := (fields_of st)(decl := names)\<rparr>))))))"

text \<open>
  The name the \<open>i\<close>-th field gets: the name of the \<open>i\<close>-th debug-info element, followed
  by an underscore and the field's old name when an earlier element has the same name.
\<close>

definition renamed :: "string list \<Rightarrow> string list \<Rightarrow> nat \<Rightarrow> string" where
  "renamed di_fields decl_fields i =
     (if di_fields ! i \<notin> set (take i di_fields) then di_fields ! i
      else di_fields ! i @ ''_'' @ decl_fields ! i)"

text \<open>
  Three record declarations: \<open>S\<close> with three fields and three debug-info elements, two
  of the same name; \<open>U\<close> with two fields and one element; \<open>V\<close> with an IR type that has
  no debug-info type.
\<close>

definition struct_state :: "(string, nat) renamer_state" where
  "struct_state =
     \<lparr>decls = [''S'' \<mapsto> 0, ''U'' \<mapsto> 1, ''V'' \<mapsto> 2],
      types = [0 \<mapsto> DICompositeType [DIDerivedType ''x'', DIDerivedType ''y'', DIDerivedType ''x''],
               1 \<mapsto> DICompositeType [DIDerivedType ''a'']],
      fields_of = (\<lambda>d. [])(''S'' := [''field0'', ''field1'', ''field2''],
                          ''U'' := [''field0'', ''field1''])\<rparr>"

section \<open>The scanning loop keeps its invariant\<close>

lemma chain_ok_Nil: "i \<le> length body \<Longrightarrow> chain_ok Prove h body [] i"
  by (simp add: chain_ok_def)

lemma chain_ok_snoc:
  assumes "chain_ok Prove h body ifs i" and "i < length body"
    and "is_plain_if (h (body ! i))"
    and "Prove (Z3Not (Z3And (GetZ3Cond (h (body ! i))) (Z3MkOr (z3conds h ifs))))"
  shows "chain_ok Prove h body (ifs @ [body ! i]) (Suc i)"
proof -
  from assms(1) obtain pre where pre: "take i body = pre @ ifs"
    by (auto simp: chain_ok_def)
  have "take (Suc i) body = pre @ (ifs @ [body ! i])"
    using pre assms(2) by (simp add: take_Suc_conv_app_nth)
  moreover have "\<forall>k < length (ifs @ [body ! i]).
      Prove (Z3Not (Z3And (GetZ3Cond (h ((ifs @ [body ! i]) ! k)))
        (Z3MkOr (z3conds h (take k (ifs @ [body ! i]))))))"
  proof (intro allI impI)
    fix k assume k: "k < length (ifs @ [body ! i])"
    show "Prove (Z3Not (Z3And (GetZ3Cond (h ((ifs @ [body ! i]) ! k)))
        (Z3MkOr (z3conds h (take k (ifs @ [body ! i]))))))"
    proof (cases "k < length ifs")
      case True
      then show ?thesis using assms(1) by (simp add: chain_ok_def nth_append)
    next
      case False
      with k have "k = length ifs" by simp
      then show ?thesis using assms(4) by simp
    qed
  qed
  ultimately show ?thesis
    using assms(1,2,3) unfolding chain_ok_def by (simp only: Suc_le_eq) auto
qed

lemma scan_chain:
  assumes "scan Prove h body ifs conds i = Some (j, ifs')"
    and "conds = z3conds h ifs"
    and "chain_ok Prove h body ifs i"
  shows "chain_ok Prove h body ifs' (Suc j) \<and> j < length body \<and> i \<le> j \<and> 2 < length ifs' \<and>
         Prove (Z3MkOr (z3conds h ifs'))"
  using assms
proof (induction Prove h body ifs conds i rule: scan.induct)
  case (1 Prove h body ifs conds i)
  let ?goal = "\<lambda>k. chain_ok Prove h body ifs' (Suc j) \<and> j < length body \<and> k \<le> j \<and>
     2 < length ifs' \<and> Prove (Z3MkOr (z3conds h ifs'))"
  show ?case
  proof (cases "i < length body")
    case False
    with "1.prems"(1) show ?thesis by (simp add: scan.simps)
  next
    case lt: True
    then have nil: "chain_ok Prove h body [] (Suc i)"
      by (simp add: chain_ok_Nil)
    have reset: "?goal i" if "scan Prove h body [] [] (Suc i) = Some (j, ifs')"
      and "scan Prove h body [] [] (Suc i) = Some (j, ifs') \<Longrightarrow> [] = z3conds h [] \<Longrightarrow>
           chain_ok Prove h body [] (Suc i) \<Longrightarrow> ?goal (Suc i)"
      using that nil by (simp add: z3conds_def)
    show ?thesis
    proof (cases "h (body ! i)")
      case (CompoundStmt b)
      with lt "1.prems"(1) have s: "scan Prove h body [] [] (Suc i) = Some (j, ifs')"
        by (simp add: scan.simps)
      show ?thesis by (rule reset[OF s]) (rule "1.IH"(4)[OF lt CompoundStmt])
    next
      case (OtherStmt x)
      with lt "1.prems"(1) have s: "scan Prove h body [] [] (Suc i) = Some (j, ifs')"
        by (simp add: scan.simps)
      show ?thesis by (rule reset[OF s]) (rule "1.IH"(5)[OF lt OtherStmt])
    next
      case (IfStmt c t e)
      let ?cond = "GetZ3Cond (h (body ! i))"
      show ?thesis
      proof (cases "e \<noteq> None")
        case True
        with lt IfStmt "1.prems"(1) have s: "scan Prove h body [] [] (Suc i) = Some (j, ifs')"
          by (simp add: scan.simps)
        show ?thesis
          by (rule reset[OF s]) (rule "1.IH"(1)[OF lt IfStmt refl refl True])
      next
        case noelse: False
        show ?thesis
        proof (cases "Prove (Z3Not (Z3And ?cond (Z3MkOr conds)))")
          case False
          with noelse lt IfStmt "1.prems"(1)
          have s: "scan Prove h body [] [] (Suc i) = Some (j, ifs')"
            by (simp add: scan.simps)
          show ?thesis
            by (rule reset[OF s]) (rule "1.IH"(2)[OF lt IfStmt refl refl noelse False])
        next
          case excl: True
          have plain: "is_plain_if (h (body ! i))"
            using IfStmt noelse by (simp add: is_plain_if_def)
          have ok: "chain_ok Prove h body (ifs @ [body ! i]) (Suc i)"
            using chain_ok_snoc[OF "1.prems"(3) lt plain] excl "1.prems"(2) by simp
          have conds1: "conds @ [?cond] = z3conds h (ifs @ [body ! i])"
            using "1.prems"(2) by (simp add: z3conds_def)
          show ?thesis
          proof (cases "length (ifs @ [body ! i]) \<le> 2 \<or> \<not> Prove (Z3MkOr (conds @ [?cond]))")
            case True
            with excl noelse lt IfStmt "1.prems"(1)
            have s: "scan Prove h body (ifs @ [body ! i]) (conds @ [?cond]) (Suc i) = Some (j, ifs')"
              by (simp add: scan.simps Let_def)
            have "?goal (Suc i)"
              by (rule "1.IH"(3)[OF lt IfStmt refl refl noelse _ refl refl True s conds1 ok])
                 (simp add: excl)
            then show ?thesis by simp
          next
            case False
            with excl noelse lt IfStmt "1.prems"(1)
            have "j = i" and "ifs' = ifs @ [body ! i]"
              by (auto simp add: scan.simps Let_def)
            with False ok lt conds1 show ?thesis by simp
          qed
        qed
      qed
    qed
  qed
qed


lemma link_chain_gen:
  assumes "distinct (pre @ rest)" and "pre \<noteq> []"
  shows "(\<forall>a. a \<notin> set (butlast (last pre # rest)) \<longrightarrow>
            link_chain h (pre @ rest) (last pre) rest a = h a) \<and>
         (\<forall>k < length rest.
            link_chain h (pre @ rest) (last pre) rest ((last pre # rest) ! k) =
              setElse (h ((last pre # rest) ! k))
                (if Suc k = length rest then getThen (h (last rest)) else rest ! k))"
  using assms
proof (induction rest arbitrary: h pre)
  case Nil
  then show ?case by simp
next
  case (Cons stmt rest)
  let ?ifs = "pre @ stmt # rest"
  have nothd: "stmt \<noteq> hd ?ifs"
    using Cons.prems by (cases pre) auto
  have lastpre: "last pre \<in> set pre" using Cons.prems(2) by simp
  have neq: "last pre \<noteq> stmt" using Cons.prems(1) lastpre by auto
  show ?case
  proof (cases "stmt = last ?ifs")
    case True
    have "rest = []"
    proof (rule ccontr)
      assume "rest \<noteq> []"
      then have "last ?ifs = last rest" by simp
      with True have "stmt \<in> set rest" using \<open>rest \<noteq> []\<close> by (metis last_in_set)
      with Cons.prems(1) show False by simp
    qed
    with nothd True show ?thesis by simp
  next
    case False
    then have ne: "rest \<noteq> []" by auto
    let ?h1 = "h(last pre := setElse (h (last pre)) stmt)"
    have step: "link_chain h ?ifs (last pre) (stmt # rest) = link_chain ?h1 ?ifs stmt rest"
      using nothd False by simp
    have d: "distinct ((pre @ [stmt]) @ rest)" using Cons.prems(1) by simp
    have ne': "pre @ [stmt] \<noteq> []" by simp
    note ih = Cons.IH[OF d ne', of ?h1, unfolded last_snoc append_assoc append_Cons append_Nil]
    have ih1: "\<And>a. a \<notin> set (butlast (stmt # rest)) \<Longrightarrow> link_chain ?h1 ?ifs stmt rest a = ?h1 a"
      and ih2: "\<And>k. k < length rest \<Longrightarrow>
            link_chain ?h1 ?ifs stmt rest ((stmt # rest) ! k) =
              setElse (?h1 ((stmt # rest) ! k))
                (if Suc k = length rest then getThen (?h1 (last rest)) else rest ! k)"
      using ih by blast+
    have notin: "last pre \<notin> set (stmt # rest)"
      using Cons.prems(1) lastpre by auto
    have part1: "\<forall>a. a \<notin> set (butlast (last pre # stmt # rest)) \<longrightarrow>
            link_chain h ?ifs (last pre) (stmt # rest) a = h a"
    proof (intro allI impI)
      fix a assume a: "a \<notin> set (butlast (last pre # stmt # rest))"
      then have "a \<noteq> last pre" and "a \<notin> set (butlast (stmt # rest))" by auto
      then show "link_chain h ?ifs (last pre) (stmt # rest) a = h a"
        using ih1[of a] step by simp
    qed
    have part2: "\<forall>k < length (stmt # rest).
            link_chain h ?ifs (last pre) (stmt # rest) ((last pre # stmt # rest) ! k) =
              setElse (h ((last pre # stmt # rest) ! k))
                (if Suc k = length (stmt # rest) then getThen (h (last (stmt # rest)))
                 else (stmt # rest) ! k)"
    proof (intro allI impI)
      fix k assume k: "k < length (stmt # rest)"
      show "link_chain h ?ifs (last pre) (stmt # rest) ((last pre # stmt # rest) ! k) =
              setElse (h ((last pre # stmt # rest) ! k))
                (if Suc k = length (stmt # rest) then getThen (h (last (stmt # rest)))
                 else (stmt # rest) ! k)"
      proof (cases k)
        case 0
        have "last pre \<notin> set (butlast (stmt # rest))"
          using notin by (meson in_set_butlastD)
        from ih1[OF this] show ?thesis using 0 step ne by simp
      next
        case (Suc k')
        with k have k': "k' < length rest" by simp
        have in1: "(stmt # rest) ! k' \<in> set (stmt # rest)"
          using k' by (metis length_Cons less_Suc_eq nth_mem)
        have in2: "last rest \<in> set (stmt # rest)" using ne by simp
        have e1: "?h1 ((stmt # rest) ! k') = h ((stmt # rest) ! k')"
          using in1 notin by (metis fun_upd_other)
        have e2: "?h1 (last rest) = h (last rest)"
          using in2 notin by (metis fun_upd_other)
        show ?thesis using ih2[OF k'] Suc step e1 e2 ne by simp
      qed
    qed
    from part1 part2 show ?thesis by blast
  qed
qed

lemma link_chain_top:
  assumes "distinct ifs" and "ifs \<noteq> []"
  shows "(\<forall>a. a \<notin> set (butlast ifs) \<longrightarrow> link_chain h ifs (ifs ! 0) ifs a = h a) \<and>
         (\<forall>k. Suc k < length ifs \<longrightarrow>
            link_chain h ifs (ifs ! 0) ifs (ifs ! k) =
              setElse (h (ifs ! k))
                (if Suc (Suc k) = length ifs then getThen (h (last ifs)) else ifs ! Suc k))"
proof -
  from assms(2) obtain a rest where ifs: "ifs = a # rest" by (cases ifs) auto
  have step: "link_chain h ifs (ifs ! 0) ifs = link_chain h ([a] @ rest) (last [a]) rest"
    using ifs by simp
  have d: "distinct ([a] @ rest)" using assms(1) ifs by simp
  from link_chain_gen[OF d, of h] show ?thesis
    unfolding step using ifs by auto
qed

section \<open>The solver for comparisons decides validity\<close>

lemma z3_eval_same_side:
  "same_side (consts_of f) x y \<Longrightarrow> z3_eval (cmp_holds x) f = z3_eval (cmp_holds y) f"
proof (induction f)
  case (Z3Cond c)
  then show ?case by (cases c) (auto simp: same_side_def)
next
  case (Z3Not f)
  then show ?case by simp
next
  case (Z3And f1 f2)
  then show ?case by (simp add: same_side_def)
next
  case (Z3MkOr es)
  have "z3_eval (cmp_holds x) e = z3_eval (cmp_holds y) e" if "e \<in> set es" for e
    using Z3MkOr.IH[OF that] Z3MkOr.prems that by (auto simp: same_side_def)
  then show ?case by simp
qed

lemma samples_cover:
  assumes "ks \<noteq> []"
  shows "\<exists>p \<in> set (samples ks). same_side ks x p"
proof (cases "x \<in> set ks")
  case True
  then have "x \<in> set (samples ks)" by (auto simp: samples_def)
  then show ?thesis by (auto simp: same_side_def)
next
  case notin: False
  show ?thesis
  proof (cases "\<forall>k \<in> set ks. x < k")
    case True
    let ?m = "Min (set ks)"
    have m: "?m \<in> set ks" using assms by simp
    have le: "\<And>k. k \<in> set ks \<Longrightarrow> ?m \<le> k" by simp
    have "?m - 1 \<in> set (samples ks)" using m by (auto simp: samples_def)
    moreover have "same_side ks x (?m - 1)"
      unfolding same_side_def using True le by fastforce
    ultimately show ?thesis by blast
  next
    case False
    let ?S = "{k \<in> set ks. k < x}"
    have fin: "finite ?S" by simp
    have ne: "?S \<noteq> {}" using False notin by force
    let ?m = "Max ?S"
    have m: "?m \<in> ?S" using Max_in[OF fin ne] .
    have ge: "\<And>k. k \<in> ?S \<Longrightarrow> k \<le> ?m" using fin by simp
    have "?m + 1 \<in> set (samples ks)" using m by (auto simp: samples_def)
    moreover have "same_side ks x (?m + 1)"
      unfolding same_side_def
    proof
      fix k assume k: "k \<in> set ks"
      show "(x = k \<longleftrightarrow> ?m + 1 = k) \<and> (k \<le> x \<longleftrightarrow> k \<le> ?m + 1)"
      proof (cases "k < x")
        case True
        with k have "k \<le> ?m" using ge by simp
        with True show ?thesis by simp
      next
        case False
        have "x \<noteq> k" using k notin by blast
        with False have "x < k" by simp
        moreover have "?m < x" using m by simp
        ultimately show ?thesis by simp
      qed
    qed
    ultimately show ?thesis by blast
  qed
qed

lemma Prove_int_exact: "Prove_int f \<longleftrightarrow> (\<forall>x. z3_eval (cmp_holds x) f)"
proof
  assume p: "Prove_int f"
  show "\<forall>x. z3_eval (cmp_holds x) f"
  proof
    fix x
    obtain p where p1: "p \<in> set (samples (0 # consts_of f))"
      and p2: "same_side (0 # consts_of f) x p"
      using samples_cover[of "0 # consts_of f" x] by auto
    from p2 have "same_side (consts_of f) x p" by (simp add: same_side_def)
    from z3_eval_same_side[OF this] p p1 show "z3_eval (cmp_holds x) f"
      by (simp add: Prove_int_def list_all_iff)
  qed
next
  assume "\<forall>x. z3_eval (cmp_holds x) f"
  then show "Prove_int f" by (simp add: Prove_int_def list_all_iff)
qed

lemma Prove_unsigned_exact: "Prove_unsigned f \<longleftrightarrow> (\<forall>x \<ge> 0. z3_eval (cmp_holds x) f)"
proof
  assume p: "Prove_unsigned f"
  show "\<forall>x \<ge> 0. z3_eval (cmp_holds x) f"
  proof (intro allI impI)
    fix x :: int assume x: "0 \<le> x"
    obtain p where p1: "p \<in> set (samples (0 # consts_of f))"
      and p2: "same_side (0 # consts_of f) x p"
      using samples_cover[of "0 # consts_of f" x] by auto
    from p2 x have "0 \<le> p" by (simp add: same_side_def)
    moreover from p2 have "same_side (consts_of f) x p" by (simp add: same_side_def)
    ultimately show "z3_eval (cmp_holds x) f"
      using z3_eval_same_side[of f x p] p p1 by (simp add: Prove_unsigned_def list_all_iff)
  qed
next
  assume "\<forall>x \<ge> 0. z3_eval (cmp_holds x) f"
  then show "Prove_unsigned f" by (simp add: Prove_unsigned_def list_all_iff)
qed

section \<open>Facts about one visit of a block\<close>

lemma fused_chain_facts:
  assumes "fused_chain Prove compound st = Some (i, ifs)"
  shows "chain_ok Prove (heap st) (body_of (heap st compound)) ifs (Suc i)"
    and "i < length (body_of (heap st compound))"
    and "2 < length ifs"
    and "Prove (Z3MkOr (z3conds (heap st) ifs))"
proof -
  have c: "[] = z3conds (heap st) []" by (simp add: z3conds_def)
  have ok: "chain_ok Prove (heap st) (body_of (heap st compound)) [] 0"
    by (simp add: chain_ok_Nil)
  from scan_chain[OF assms[unfolded fused_chain_def] c ok]
  show "chain_ok Prove (heap st) (body_of (heap st compound)) ifs (Suc i)"
    and "i < length (body_of (heap st compound))"
    and "2 < length ifs"
    and "Prove (Z3MkOr (z3conds (heap st) ifs))"
    by simp_all
qed

lemma VisitCompoundStmt_None:
  "fused_chain Prove compound st = None \<Longrightarrow>
   VisitCompoundStmt Prove compound st = (\<not> stopped st, st)"
  by (simp add: VisitCompoundStmt_def fused_chain_def)

text \<open>Unfolding rules for running the model on the example blocks.\<close>

lemmas ex_defs = literal_state_def literal_heap_def pair_state_def pair_heap_def
  same_cond_state_def same_cond_heap_def framed_state_def framed_heap_def

lemmas run_defs = VisitCompoundStmt_def fused_chain_def scan.simps GetZ3Cond_def
  erase_at_def erase_range_def CreateCompoundStmt_def Prove_unsigned_def Prove_int_def samples_def
  z3conds_def

lemma z3_eval_MkOr_z3conds:
  "z3_eval v (Z3MkOr (z3conds h ifs)) \<longleftrightarrow> (\<exists>a \<in> set ifs. v (getCond (h a)))"
  by (simp add: z3conds_def GetZ3Cond_def)

lemma erase_chain:
  assumes "body = pre @ ifs @ suf" and "2 \<le> length ifs" and "Suc i = length pre + length ifs"
  shows "erase_at (erase_range body (i - (length ifs - 2)) i) (i - (length ifs - 2)) =
         pre @ hd ifs # suf"
proof -
  from assms(2) obtain a rest where ar: "ifs = a # rest" and "rest \<noteq> []"
    by (cases ifs) force+
  then obtain mid z where "rest = mid @ [z]"
    by (cases rest rule: rev_cases) auto
  with ar have ifs: "ifs = a # mid @ [z]" by simp
  have start: "i - (length ifs - 2) = Suc (length pre)"
    using assms(3) ifs by simp
  have i: "i = length pre + Suc (length mid)" using assms(3) ifs by simp
  have body: "body = (pre @ [a]) @ mid @ z # suf" using assms(1) ifs by simp
  have r: "erase_range body (Suc (length pre)) i = (pre @ [a]) @ z # suf"
    unfolding erase_range_def body i by simp
  show ?thesis unfolding start r erase_at_def using ifs by simp
qed

lemma fused_chain_body:
  assumes "fused_chain Prove compound st = Some (i, ifs)"
  obtains pre where
    "body_of (heap st compound) = pre @ ifs @ drop (Suc i) (body_of (heap st compound))"
    and "Suc i = length pre + length ifs"
proof -
  let ?body = "body_of (heap st compound)"
  from fused_chain_facts(1)[OF assms] obtain pre where pre: "take (Suc i) ?body = pre @ ifs"
    unfolding chain_ok_def by blast
  have "?body = take (Suc i) ?body @ drop (Suc i) ?body" by simp
  with pre have b: "?body = pre @ ifs @ drop (Suc i) ?body" by simp
  have "length (take (Suc i) ?body) = Suc i"
    using fused_chain_facts(2)[OF assms] by simp
  with pre have "Suc i = length pre + length ifs" by simp
  with b that show thesis by blast
qed

lemma VisitCompoundStmt_Some:
  assumes "fused_chain Prove compound st = Some (i, ifs)"
    and "body_of (heap st compound) = pre @ ifs @ drop (Suc i) (body_of (heap st compound))"
    and "Suc i = length pre + length ifs"
  shows "snd (VisitCompoundStmt Prove compound st) =
     st\<lparr>heap := (link_chain (heap st) ifs (ifs ! 0) ifs)
               (next_addr st := CompoundStmt (pre @ hd ifs # drop (Suc i) (body_of (heap st compound)))),
        next_addr := Suc (next_addr st),
        substitutions := (substitutions st)(compound \<mapsto> next_addr st)\<rparr>"
proof -
  have len: "2 \<le> length ifs" using fused_chain_facts(3)[OF assms(1)] by simp
  note e = erase_chain[OF assms(2) len assms(3)]
  show ?thesis
    using assms(1) e
    by (simp add: VisitCompoundStmt_def fused_chain_def CreateCompoundStmt_def Let_def)
qed

lemma setElse_setElse: "setElse (setElse s x) e = setElse s e"
  by (cases s) simp_all

lemma link_chain_frame:
  "link_chain h ifs l rest a = h a \<or>
   (a \<in> set (l # rest) \<and> (\<exists>e. link_chain h ifs l rest a = setElse (h a) e))"
proof (induction rest arbitrary: h l)
  case Nil
  then show ?case by simp
next
  case (Cons stmt rest)
  show ?case
  proof (cases "stmt = hd ifs")
    case True
    with Cons.IH[of h l] show ?thesis by auto
  next
    case nothd: False
    define x where "x = (if stmt = last ifs then getThen (h stmt) else stmt)"
    define l' where "l' = (if stmt = last ifs then l else stmt)"
    let ?h1 = "h(l := setElse (h l) x)"
    have step: "link_chain h ifs l (stmt # rest) = link_chain ?h1 ifs l' rest"
      using nothd by (simp add: x_def l'_def)
    have l': "set (l' # rest) \<subseteq> set (l # stmt # rest)"
      by (auto simp: l'_def)
    from Cons.IH[of ?h1 l'] have ih: "link_chain ?h1 ifs l' rest a = ?h1 a \<or>
       (a \<in> set (l' # rest) \<and> (\<exists>e. link_chain ?h1 ifs l' rest a = setElse (?h1 a) e))" .
    show ?thesis
    proof (cases "a = l")
      case True
      then have h1: "?h1 a = setElse (h a) x" by simp
      from ih have "\<exists>e. link_chain ?h1 ifs l' rest a = setElse (h a) e"
        unfolding h1 setElse_setElse by blast
      with True step show ?thesis by simp
    next
      case False
      then have "?h1 a = h a" by simp
      with ih l' step show ?thesis by auto
    qed
  qed
qed

lemmas nested_defs = nested_state_def nested_heap_def nested_inner_first_def nested_outer_first_def

lemma nested_inner_then_outer:
  "substitutions nested_inner_first 0 = Some 14 \<and>
   substitutions nested_inner_first 4 = Some 13 \<and>
   heap nested_inner_first 14 = CompoundStmt [1] \<and>
   heap nested_inner_first 0 = CompoundStmt [1, 2, 3] \<and>
   heap nested_inner_first 1 = IfStmt (EQ 0) 4 (Some 2)"
  by (simp add: nested_defs run_defs)

lemma nested_outer_then_inner:
  "substitutions nested_outer_first 0 = Some 13 \<and>
   substitutions nested_outer_first 4 = Some 14 \<and>
   heap nested_outer_first 13 = CompoundStmt [1] \<and>
   heap nested_outer_first 0 = CompoundStmt [1, 2, 3] \<and>
   heap nested_outer_first 1 = IfStmt (EQ 0) 4 (Some 2)"
  by (simp add: nested_defs run_defs)




lemma fused_chain_needs_three:
  assumes "fused_chain Prove compound st = Some (i, ifs)"
  shows "2 < length (body_of (heap st compound))"
proof -
  from fused_chain_body[OF assms] obtain pre :: "addr list" where
    i: "Suc i = length pre + length ifs" by blast
  have a: "i < length (body_of (heap st compound))" by (rule fused_chain_facts(2)[OF assms])
  have b: "2 < length ifs" by (rule fused_chain_facts(3)[OF assms])
  from i a b show ?thesis by arith
qed

text \<open>
  No solver that accepts only formulas true for every integer \<open>x\<close> lets the visitor
  fuse the block \<open>[ if(x==0){A} if(x==1){B} if(x>=2){C} ]\<close>.
\<close>

lemma literal_block_sound_prover:
  assumes sound: "\<forall>f. Prove f \<longrightarrow> (\<forall>x. z3_eval (cmp_holds x) f)"
  shows "fused_chain Prove 0 literal_state = None"
proof (rule ccontr)
  assume "fused_chain Prove 0 literal_state \<noteq> None"
  then obtain i ifs where f: "fused_chain Prove 0 literal_state = Some (i, ifs)" by auto
  have body: "body_of (heap literal_state 0) = [1, 2, 3]" by (simp add: ex_defs)
  from fused_chain_body[OF f] obtain pre where
    b: "[1 :: nat, 2, 3] = pre @ ifs @ drop (Suc i) [1, 2, 3]"
    and i: "Suc i = length pre + length ifs"
    unfolding body by blast
  from fused_chain_facts(2)[OF f] have "i < 3" unfolding body by simp
  moreover have "2 < length ifs" by (rule fused_chain_facts(3)[OF f])
  ultimately have "length pre = 0" and "i = 2" using i by arith+
  then have pre: "pre = []" and i2: "i = 2" by simp_all
  have ifs: "ifs = [1, 2, 3]"
    using b[symmetric] unfolding pre i2 by simp
  from fused_chain_facts(4)[OF f] sound
  have "z3_eval (cmp_holds (- 1)) (Z3MkOr (z3conds (heap literal_state) ifs))" by blast
  then show False unfolding ifs by (simp add: ex_defs z3conds_def GetZ3Cond_def)
qed











section \<open>The renaming loop\<close>

lemma rename_loop_in_bounds:
  assumes "length names \<le> length di" and "seen = set (take i di)"
  shows "\<exists>r. rename_loop di seen i names = Inr r \<and> length r = length names \<and>
     (\<forall>j < length names. r ! j = (if j < i then names ! j else renamed di names j))"
  using assms
proof (induction di seen i names rule: rename_loop.induct)
  case (1 di seen i names)
  show ?case
  proof (cases "i < length names")
    case False
    then show ?thesis by (subst rename_loop.simps) simp
  next
    case lt: True
    with "1.prems"(1) have ltd: "i < length di" by simp
    have seen': "insert (di ! i) seen = set (take (Suc i) di)"
      using "1.prems"(2) ltd by (simp add: take_Suc_conv_app_nth)
    show ?thesis
    proof (cases "di ! i \<notin> seen")
      case True
      let ?names = "names[i := di ! i]"
      have step: "rename_loop di seen i names = rename_loop di (insert (di ! i) seen) (Suc i) ?names"
        using lt ltd True by (subst rename_loop.simps) (simp add: Let_def)
      from "1.IH"(1)[OF lt ltd refl True _ seen'] "1.prems"(1)
      obtain r where r: "rename_loop di (insert (di ! i) seen) (Suc i) ?names = Inr r"
        and len: "length r = length names"
        and nth: "\<forall>j < length names. r ! j =
           (if j < Suc i then ?names ! j else renamed di ?names j)"
        by auto
      have "r ! j = (if j < i then names ! j else renamed di names j)" if j: "j < length names" for j
      proof (cases "j = i")
        case True
        with nth j lt have "r ! j = di ! i" by simp
        with True "1.prems"(2) \<open>di ! i \<notin> seen\<close> show ?thesis by (simp add: renamed_def)
      next
        case False
        with nth j show ?thesis by (auto simp: renamed_def)
      qed
      with r len step show ?thesis by simp
    next
      case False
      let ?names = "names[i := di ! i @ ''_'' @ names ! i]"
      from False have "insert (di ! i) seen = seen" by (simp add: insert_absorb)
      with seen' have seen'': "seen = set (take (Suc i) di)" by simp
      have step: "rename_loop di seen i names = rename_loop di seen (Suc i) ?names"
        using lt ltd False by (subst rename_loop.simps) (simp add: Let_def)
      from "1.IH"(2)[OF lt ltd refl False refl _ seen''] "1.prems"(1)
      obtain r where r: "rename_loop di seen (Suc i) ?names = Inr r"
        and len: "length r = length names"
        and nth: "\<forall>j < length names. r ! j =
           (if j < Suc i then ?names ! j else renamed di ?names j)"
        by auto
      have "r ! j = (if j < i then names ! j else renamed di names j)" if j: "j < length names" for j
      proof (cases "j = i")
        case True
        with nth j lt have "r ! j = di ! i @ ''_'' @ names ! i" by simp
        with True "1.prems"(2) False show ?thesis by (simp add: renamed_def)
      next
        case False
        with nth j show ?thesis by (auto simp: renamed_def)
      qed
      with r len step show ?thesis by simp
    qed
  qed
qed

lemma rename_loop_out_of_bounds:
  assumes "length di < length names" and "i \<le> length di"
  shows "rename_loop di seen i names = Inl OutOfBounds"
  using assms
proof (induction di seen i names rule: rename_loop.induct)
  case (1 di seen i names)
  show ?case
  proof (cases "i < length di")
    case False
    with "1.prems" show ?thesis by (subst rename_loop.simps) simp
  next
    case ltd: True
    with "1.prems"(1) have lt: "i < length names" by simp
    show ?thesis
    proof (cases "di ! i \<notin> seen")
      case True
      have "rename_loop di seen i names =
          rename_loop di (insert (di ! i) seen) (Suc i) (names[i := di ! i])"
        using lt ltd True by (subst rename_loop.simps) (simp add: Let_def)
      also have "\<dots> = Inl OutOfBounds"
        using "1.IH"(1)[OF lt ltd refl True] "1.prems"(1) ltd by simp
      finally show ?thesis .
    next
      case False
      have "rename_loop di seen i names =
          rename_loop di seen (Suc i) (names[i := di ! i @ ''_'' @ names ! i])"
        using lt ltd False by (subst rename_loop.simps) (simp add: Let_def)
      also have "\<dots> = Inl OutOfBounds"
        using "1.IH"(2)[OF lt ltd refl False refl] "1.prems"(1) ltd by simp
      finally show ?thesis .
    qed
  qed
qed

lemma missing_debug_info_skips:
  "decls st decl = Some ty \<Longrightarrow> types st ty = None \<Longrightarrow> VisitRecordDecl decl st = Inr (True, st)"
  by (simp add: VisitRecordDecl_def)

lemma renamed_S:
  "renamed [''x'', ''y'', ''x''] [''field0'', ''field1'', ''field2''] 0 = ''x''"
  "renamed [''x'', ''y'', ''x''] [''field0'', ''field1'', ''field2''] 1 = ''y''"
  "renamed [''x'', ''y'', ''x''] [''field0'', ''field1'', ''field2''] 2 = ''x_field2''"
  by (simp_all add: renamed_def)

section \<open>The claims about the reachability refiner\<close>

text \<open>
  Claim C3. The visitor records a substitution for a block only when the chain it has
  collected has more than two members, all of them adjacent else-less \<open>if\<close> statements
  of the block, and \<open>Prove\<close> accepted the disjunction of their conditions. A block of at
  most two statements is never changed, whatever \<open>Prove\<close> answers.
\<close>

theorem fusion_needs_complete_chain_of_three:
  "(substitutions (snd (VisitCompoundStmt Prove compound st)) \<noteq> substitutions st \<longrightarrow>
      (\<exists>i ifs pre. fused_chain Prove compound st = Some (i, ifs) \<and> 2 < length ifs \<and>
         take (Suc i) (body_of (heap st compound)) = pre @ ifs \<and>
         (\<forall>a \<in> set ifs. is_plain_if (heap st a)) \<and>
         Prove (Z3MkOr (z3conds (heap st) ifs)))) \<and>
   (length (body_of (heap st compound)) \<le> 2 \<longrightarrow>
      snd (VisitCompoundStmt Prove compound st) = st)"
proof (intro conjI impI)
  assume changed: "substitutions (snd (VisitCompoundStmt Prove compound st)) \<noteq> substitutions st"
  have "fused_chain Prove compound st \<noteq> None"
  proof
    assume "fused_chain Prove compound st = None"
    from VisitCompoundStmt_None[OF this] changed show False by simp
  qed
  then obtain i ifs where f: "fused_chain Prove compound st = Some (i, ifs)" by auto
  from fused_chain_facts[OF f] show "\<exists>i ifs pre. fused_chain Prove compound st = Some (i, ifs) \<and>
      2 < length ifs \<and> take (Suc i) (body_of (heap st compound)) = pre @ ifs \<and>
      (\<forall>a \<in> set ifs. is_plain_if (heap st a)) \<and> Prove (Z3MkOr (z3conds (heap st) ifs))"
    using f unfolding chain_ok_def by blast
next
  assume short: "length (body_of (heap st compound)) \<le> 2"
  have "fused_chain Prove compound st = None"
  proof (rule ccontr)
    assume "fused_chain Prove compound st \<noteq> None"
    then obtain i ifs where f: "fused_chain Prove compound st = Some (i, ifs)" by auto
    from fused_chain_facts[OF f] obtain pre where
      "take (Suc i) (body_of (heap st compound)) = pre @ ifs" and "2 < length ifs"
      unfolding chain_ok_def by blast
    then have "2 < length (take (Suc i) (body_of (heap st compound)))" by simp
    with short show False by simp
  qed
  then show "snd (VisitCompoundStmt Prove compound st) = st"
    by (simp add: VisitCompoundStmt_None)
qed

theorem fusion_needs_complete_chain_of_three_witness:
  "substitutions (snd (VisitCompoundStmt Prove_unsigned 0 literal_state)) \<noteq>
     substitutions literal_state \<and>
   fused_chain Prove_unsigned 0 literal_state = Some (2, [1, 2, 3]) \<and>
   Prove_unsigned (Z3MkOr (z3conds (heap literal_state) [1, 2, 3])) \<and>
   length (body_of (heap pair_state 0)) \<le> 2 \<and>
   Prove_unsigned (Z3Not (Z3And (Z3Cond (GE 1)) (Z3MkOr [Z3Cond (EQ 0)]))) \<and>
   Prove_unsigned (Z3MkOr [Z3Cond (EQ 0), Z3Cond (GE 1)]) \<and>
   snd (VisitCompoundStmt Prove_unsigned 0 pair_state) = pair_state"
proof -
  have changed: "substitutions (snd (VisitCompoundStmt Prove_unsigned 0 literal_state)) \<noteq>
      substitutions literal_state"
    by (simp add: ex_defs run_defs)
  have chain: "fused_chain Prove_unsigned 0 literal_state = Some (2, [1, 2, 3])"
    by (simp add: ex_defs run_defs)
  have short: "length (body_of (heap pair_state 0)) \<le> 2"
    by (simp add: ex_defs)
  have excl: "Prove_unsigned (Z3Not (Z3And (Z3Cond (GE 1)) (Z3MkOr [Z3Cond (EQ 0)])))"
    by (simp add: run_defs)
  have compl: "Prove_unsigned (Z3MkOr [Z3Cond (EQ 0), Z3Cond (GE 1)])"
    by (simp add: run_defs)
  from fusion_needs_complete_chain_of_three[of Prove_unsigned 0 literal_state] changed chain
  have proved: "Prove_unsigned (Z3MkOr (z3conds (heap literal_state) [1, 2, 3]))"
    by auto
  from fusion_needs_complete_chain_of_three[of Prove_unsigned 0 pair_state] short
  have same: "snd (VisitCompoundStmt Prove_unsigned 0 pair_state) = pair_state"
    by blast
  from changed chain proved short excl compl same show ?thesis by blast
qed

text \<open>
  Claim C2. When the visitor fuses a chain, \<open>Prove\<close> has accepted the disjunction of
  all its conditions, and for every member it has accepted that the member's condition
  excludes the disjunction of the conditions before it. For a \<open>Prove\<close> that accepts only
  formulas true in every environment, some condition of the chain then holds in every
  environment and no two of them hold together.
\<close>

theorem fused_chain_exhaustive_and_exclusive:
  assumes fused: "fused_chain Prove compound st = Some (i, ifs)"
  shows "Prove (Z3MkOr (z3conds (heap st) ifs)) \<and>
    (\<forall>k < length ifs.
       Prove (Z3Not (Z3And (GetZ3Cond (heap st (ifs ! k)))
                (Z3MkOr (z3conds (heap st) (take k ifs)))))) \<and>
    ((\<forall>f. Prove f \<longrightarrow> (\<forall>env. z3_eval (sem env) f)) \<longrightarrow>
       (\<forall>env. (\<exists>k < length ifs. sem env (getCond (heap st (ifs ! k)))) \<and>
          (\<forall>j k. j < k \<and> k < length ifs \<longrightarrow>
             \<not> (sem env (getCond (heap st (ifs ! j))) \<and>
                sem env (getCond (heap st (ifs ! k)))))))"
proof (intro conjI impI allI)
  show complete: "Prove (Z3MkOr (z3conds (heap st) ifs))"
    using fused_chain_facts(4)[OF fused] .
  have excl: "Prove (Z3Not (Z3And (GetZ3Cond (heap st (ifs ! k)))
                (Z3MkOr (z3conds (heap st) (take k ifs)))))" if "k < length ifs" for k
    using fused_chain_facts(1)[OF fused] that unfolding chain_ok_def by blast
  then show "Prove (Z3Not (Z3And (GetZ3Cond (heap st (ifs ! k)))
                (Z3MkOr (z3conds (heap st) (take k ifs)))))" if "k < length ifs" for k
    using that .
  {
    fix env
    assume sound: "\<forall>f. Prove f \<longrightarrow> (\<forall>env. z3_eval (sem env) f)"
    from sound complete have "z3_eval (sem env) (Z3MkOr (z3conds (heap st) ifs))" by blast
    then obtain a where "a \<in> set ifs" and "sem env (getCond (heap st a))"
      unfolding z3_eval_MkOr_z3conds by blast
    then show "\<exists>k < length ifs. sem env (getCond (heap st (ifs ! k)))"
      by (metis in_set_conv_nth)
  next
    fix env j k
    assume sound: "\<forall>f. Prove f \<longrightarrow> (\<forall>env. z3_eval (sem env) f)"
      and jk: "j < k \<and> k < length ifs"
    from sound excl[of k] jk
    have "z3_eval (sem env) (Z3Not (Z3And (GetZ3Cond (heap st (ifs ! k)))
                (Z3MkOr (z3conds (heap st) (take k ifs)))))" by blast
    then have no: "\<not> (sem env (getCond (heap st (ifs ! k))) \<and>
        (\<exists>a \<in> set (take k ifs). sem env (getCond (heap st a))))"
      by (simp add: z3_eval_MkOr_z3conds GetZ3Cond_def del: z3_eval.simps(4))
    have "ifs ! j \<in> set (take k ifs)"
      using jk by (metis in_set_conv_nth length_take min_less_iff_conj nth_take order_less_trans)
    with no show "\<not> (sem env (getCond (heap st (ifs ! j))) \<and>
                sem env (getCond (heap st (ifs ! k))))" by blast
  }
qed

theorem fused_chain_exhaustive_and_exclusive_witness:
  "fused_chain Prove_unsigned 0 literal_state = Some (2, [1, 2, 3]) \<and>
   Prove_unsigned (Z3MkOr [Z3Cond (EQ 0), Z3Cond (EQ 1), Z3Cond (GE 2)]) \<and>
   Prove_unsigned (Z3Not (Z3And (Z3Cond (GE 2)) (Z3MkOr [Z3Cond (EQ 0), Z3Cond (EQ 1)]))) \<and>
   (\<forall>n. \<exists>k < 3. cmp_holds (int n) ([EQ 0, EQ 1, GE 2] ! k)) \<and>
   (\<forall>n. \<not> (cmp_holds (int n) (EQ 1) \<and> cmp_holds (int n) (GE 2)))"
proof -
  have chain: "fused_chain Prove_unsigned 0 literal_state = Some (2, [1, 2, 3])"
    by (simp add: ex_defs run_defs)
  have sound: "\<forall>f. Prove_unsigned f \<longrightarrow> (\<forall>n. z3_eval (\<lambda>c. cmp_holds (int n) c) f)"
    by (simp add: Prove_unsigned_exact)
  have conds: "z3conds (heap literal_state) [1, 2, 3] = [Z3Cond (EQ 0), Z3Cond (EQ 1), Z3Cond (GE 2)]"
    by (simp add: ex_defs run_defs)
  note inst = fused_chain_exhaustive_and_exclusive[OF chain, of "\<lambda>n c. cmp_holds (int n) c"]
  from inst have a: "Prove_unsigned (Z3MkOr [Z3Cond (EQ 0), Z3Cond (EQ 1), Z3Cond (GE 2)])"
    using conds by simp
  from inst have all: "\<forall>k < length [1::nat, 2, 3].
       Prove_unsigned (Z3Not (Z3And (GetZ3Cond (heap literal_state ([1, 2, 3] ! k)))
                (Z3MkOr (z3conds (heap literal_state) (take k [1, 2, 3])))))"
    by blast
  have "(2::nat) < length [1::nat, 2, 3]" by simp
  with all have "Prove_unsigned (Z3Not (Z3And (GetZ3Cond (heap literal_state ([1, 2, 3] ! 2)))
                (Z3MkOr (z3conds (heap literal_state) (take 2 [1, 2, 3])))))"
    by blast
  then have b: "Prove_unsigned
      (Z3Not (Z3And (Z3Cond (GE 2)) (Z3MkOr [Z3Cond (EQ 0), Z3Cond (EQ 1)])))"
    by (simp add: ex_defs z3conds_def GetZ3Cond_def)
  from inst sound have ex: "\<forall>n. \<exists>k < length [1::nat, 2, 3].
        cmp_holds (int n) (getCond (heap literal_state ([1, 2, 3] ! k)))"
    and pair: "\<forall>n j k. j < k \<and> k < length [1::nat, 2, 3] \<longrightarrow>
         \<not> (cmp_holds (int n) (getCond (heap literal_state ([1, 2, 3] ! j))) \<and>
            cmp_holds (int n) (getCond (heap literal_state ([1, 2, 3] ! k))))"
    by blast+
  have len: "length [1::nat, 2, 3] = 3" by simp
  have c: "\<exists>k < 3. cmp_holds (int n) ([EQ 0, EQ 1, GE 2] ! k)" for n
  proof -
    from ex obtain k where k: "k < 3"
      and h: "cmp_holds (int n) (getCond (heap literal_state ([1, 2, 3] ! k)))"
      unfolding len by blast
    from k have "k = 0 \<or> k = 1 \<or> k = 2" by arith
    with h have "cmp_holds (int n) ([EQ 0, EQ 1, GE 2] ! k)"
      by (auto simp: ex_defs)
    with k show ?thesis by blast
  qed
  have d: "\<not> (cmp_holds (int n) (EQ 1) \<and> cmp_holds (int n) (GE 2))" for n
  proof -
    have "(1::nat) < 2 \<and> 2 < length [1::nat, 2, 3]" by simp
    with pair have "\<not> (cmp_holds (int n) (getCond (heap literal_state ([1, 2, 3] ! 1))) \<and>
            cmp_holds (int n) (getCond (heap literal_state ([1, 2, 3] ! 2))))"
      by blast
    then show ?thesis by (simp add: ex_defs)
  qed
  from chain a b c d show ?thesis by blast
qed

text \<open>
  Claim C1. When the visitor fuses the chain \<open>ifs\<close> of a block whose children are
  distinct nodes, the block it records as replacement has the statements before the
  chain, then the first chain member, then the statements after the chain; every chain
  member but the last has kept its condition and then-branch and has as else branch the
  next member, or the then-branch of the last member when the next member is the last;
  no other node has changed.
\<close>

theorem fusion_builds_else_if_ladder:
  assumes fused: "fused_chain Prove compound st = Some (i, ifs)"
    and tree: "distinct (body_of (heap st compound))"
    and fresh: "next_addr st \<notin> set (body_of (heap st compound))"
  shows "\<exists>pre. body_of (heap st compound) =
             pre @ ifs @ drop (Suc i) (body_of (heap st compound)) \<and>
    substitutions (snd (VisitCompoundStmt Prove compound st)) compound = Some (next_addr st) \<and>
    heap (snd (VisitCompoundStmt Prove compound st)) (next_addr st) =
      CompoundStmt (pre @ hd ifs # drop (Suc i) (body_of (heap st compound))) \<and>
    (\<forall>k. Suc k < length ifs \<longrightarrow>
       heap (snd (VisitCompoundStmt Prove compound st)) (ifs ! k) =
         IfStmt (getCond (heap st (ifs ! k))) (getThen (heap st (ifs ! k)))
           (Some (if Suc (Suc k) = length ifs then getThen (heap st (last ifs))
                  else ifs ! Suc k))) \<and>
    (\<forall>a. a \<notin> set (butlast ifs) \<and> a \<noteq> next_addr st \<longrightarrow>
       heap (snd (VisitCompoundStmt Prove compound st)) a = heap st a)"
proof -
  let ?body = "body_of (heap st compound)"
  let ?st' = "snd (VisitCompoundStmt Prove compound st)"
  from fused_chain_body[OF fused] obtain pre where
    body: "?body = pre @ ifs @ drop (Suc i) ?body" and i: "Suc i = length pre + length ifs"
    by blast
  note res = VisitCompoundStmt_Some[OF fused body i]
  have sub: "set ifs \<subseteq> set ?body"
    by (subst body) auto
  have d: "distinct ifs"
    using tree by (subst (asm) body) simp
  have ne: "ifs \<noteq> []" using fused_chain_facts(3)[OF fused] by auto
  have fresh_ifs: "next_addr st \<notin> set ifs" using fresh sub by blast
  have plain: "\<And>a. a \<in> set ifs \<Longrightarrow> is_plain_if (heap st a)"
    using fused_chain_facts(1)[OF fused] unfolding chain_ok_def by blast
  note link = link_chain_top[OF d ne, of "heap st"]
  have p2: "substitutions ?st' compound = Some (next_addr st)"
    by (simp add: res)
  have p3: "heap ?st' (next_addr st) = CompoundStmt (pre @ hd ifs # drop (Suc i) ?body)"
    by (simp add: res)
  have p4: "\<forall>k. Suc k < length ifs \<longrightarrow>
       heap ?st' (ifs ! k) =
         IfStmt (getCond (heap st (ifs ! k))) (getThen (heap st (ifs ! k)))
           (Some (if Suc (Suc k) = length ifs then getThen (heap st (last ifs))
                  else ifs ! Suc k))"
  proof (intro allI impI)
    fix k assume k: "Suc k < length ifs"
    then have mem: "ifs ! k \<in> set ifs" by simp
    with fresh_ifs have neq: "ifs ! k \<noteq> next_addr st" by metis
    from plain[OF mem] obtain c t where n: "heap st (ifs ! k) = IfStmt c t None"
      by (auto simp: is_plain_if_def split: stmt.splits)
    have "heap ?st' (ifs ! k) = link_chain (heap st) ifs (ifs ! 0) ifs (ifs ! k)"
      using neq by (simp add: res)
    also have "\<dots> = setElse (heap st (ifs ! k))
        (if Suc (Suc k) = length ifs then getThen (heap st (last ifs)) else ifs ! Suc k)"
      using link k by blast
    finally show "heap ?st' (ifs ! k) =
         IfStmt (getCond (heap st (ifs ! k))) (getThen (heap st (ifs ! k)))
           (Some (if Suc (Suc k) = length ifs then getThen (heap st (last ifs))
                  else ifs ! Suc k))"
      by (simp add: n)
  qed
  have p5: "\<forall>a. a \<notin> set (butlast ifs) \<and> a \<noteq> next_addr st \<longrightarrow> heap ?st' a = heap st a"
  proof (intro allI impI)
    fix a assume a: "a \<notin> set (butlast ifs) \<and> a \<noteq> next_addr st"
    then have "heap ?st' a = link_chain (heap st) ifs (ifs ! 0) ifs a"
      by (simp add: res)
    also have "\<dots> = heap st a" using link a by blast
    finally show "heap ?st' a = heap st a" .
  qed
  from body p2 p3 p4 p5 show ?thesis by blast
qed

theorem fusion_builds_else_if_ladder_witness:
  "fused_chain Prove_unsigned 0 framed_state = Some (3, [1, 2, 3]) \<and>
   distinct (body_of (heap framed_state 0)) \<and>
   next_addr framed_state \<notin> set (body_of (heap framed_state 0)) \<and>
   body_of (heap framed_state 0) = [7] @ [1, 2, 3] @ [8] \<and>
   substitutions (snd (VisitCompoundStmt Prove_unsigned 0 framed_state)) 0 = Some 9 \<and>
   heap (snd (VisitCompoundStmt Prove_unsigned 0 framed_state)) 9 = CompoundStmt [7, 1, 8] \<and>
   heap (snd (VisitCompoundStmt Prove_unsigned 0 framed_state)) 1 = IfStmt (EQ 0) 4 (Some 2) \<and>
   heap (snd (VisitCompoundStmt Prove_unsigned 0 framed_state)) 2 = IfStmt (EQ 1) 5 (Some 6) \<and>
   heap (snd (VisitCompoundStmt Prove_unsigned 0 framed_state)) 7 = OtherStmt ''S'' \<and>
   tree_of 4 (heap (snd (VisitCompoundStmt Prove_unsigned 0 framed_state))) 9 =
     Some (TCompound [TOther ''S'',
       TIf (EQ 0) (TOther ''A'') (Some (TIf (EQ 1) (TOther ''B'') (Some (TOther ''C'')))),
       TOther ''T''])"
proof -
  have chain: "fused_chain Prove_unsigned 0 framed_state = Some (3, [1, 2, 3])"
    by (simp add: ex_defs run_defs)
  have d: "distinct (body_of (heap framed_state 0))"
    by (simp add: ex_defs)
  have fresh: "next_addr framed_state \<notin> set (body_of (heap framed_state 0))"
    by (simp add: ex_defs)
  have body: "body_of (heap framed_state 0) = [7] @ [1, 2, 3] @ [8]"
    by (simp add: ex_defs)
  let ?st' = "snd (VisitCompoundStmt Prove_unsigned 0 framed_state)"
  from fusion_builds_else_if_ladder[OF chain d fresh] obtain pre where
    b: "body_of (heap framed_state 0) = pre @ [1, 2, 3] @ drop (Suc 3) (body_of (heap framed_state 0))"
    and s: "substitutions ?st' 0 = Some (next_addr framed_state)"
    and n: "heap ?st' (next_addr framed_state) =
        CompoundStmt (pre @ hd [1, 2, 3] # drop (Suc 3) (body_of (heap framed_state 0)))"
    and l: "\<forall>k. Suc k < length [1::nat, 2, 3] \<longrightarrow>
       heap ?st' ([1, 2, 3] ! k) =
         IfStmt (getCond (heap framed_state ([1, 2, 3] ! k))) (getThen (heap framed_state ([1, 2, 3] ! k)))
           (Some (if Suc (Suc k) = length [1::nat, 2, 3] then getThen (heap framed_state (last [1, 2, 3]))
                  else [1, 2, 3] ! Suc k))"
    and f: "\<forall>a. a \<notin> set (butlast [1::nat, 2, 3]) \<and> a \<noteq> next_addr framed_state \<longrightarrow>
       heap ?st' a = heap framed_state a"
    by blast
  from b have pre: "pre = [7]" by (simp add: ex_defs append_eq_Cons_conv)
  have s': "substitutions ?st' 0 = Some 9" using s by (simp add: ex_defs)
  have n': "heap ?st' 9 = CompoundStmt [7, 1, 8]" using n pre by (simp add: ex_defs)
  have "Suc 0 < length [1::nat, 2, 3]" by simp
  with l have "heap ?st' ([1, 2, 3] ! 0) =
         IfStmt (getCond (heap framed_state ([1, 2, 3] ! 0))) (getThen (heap framed_state ([1, 2, 3] ! 0)))
           (Some (if Suc (Suc 0) = length [1::nat, 2, 3] then getThen (heap framed_state (last [1, 2, 3]))
                  else [1, 2, 3] ! Suc 0))" by blast
  then have l1: "heap ?st' 1 = IfStmt (EQ 0) 4 (Some 2)" by (simp add: ex_defs)
  have "Suc 1 < length [1::nat, 2, 3]" by simp
  with l have "heap ?st' ([1, 2, 3] ! 1) =
         IfStmt (getCond (heap framed_state ([1, 2, 3] ! 1))) (getThen (heap framed_state ([1, 2, 3] ! 1)))
           (Some (if Suc (Suc 1) = length [1::nat, 2, 3] then getThen (heap framed_state (last [1, 2, 3]))
                  else [1, 2, 3] ! Suc 1))" by blast
  then have l2: "heap ?st' 2 = IfStmt (EQ 1) 5 (Some 6)" by (simp add: ex_defs)
  have "7 \<notin> set (butlast [1::nat, 2, 3]) \<and> 7 \<noteq> next_addr framed_state"
    by (simp add: ex_defs)
  with f have "heap ?st' 7 = heap framed_state 7" by blast
  then have f7: "heap ?st' 7 = OtherStmt ''S''" by (simp add: ex_defs)
  have t: "tree_of 4 (heap ?st') 9 =
     Some (TCompound [TOther ''S'',
       TIf (EQ 0) (TOther ''A'') (Some (TIf (EQ 1) (TOther ''B'') (Some (TOther ''C'')))),
       TOther ''T''])"
    by (simp add: ex_defs run_defs numeral_eq_Suc)
  from chain d fresh body s' n' l1 l2 f7 t show ?thesis by blast
qed

text \<open>
  Claim C4, as stated, fails when \<open>x\<close> ranges over the integers: \<open>x = -1\<close> satisfies
  none of \<open>x == 0\<close>, \<open>x == 1\<close>, \<open>x >= 2\<close>, so the disjunction is no tautology, the
  solver does not accept it and the visitor leaves the block as it is.
\<close>

theorem literal_block_over_integers_counterexample:
  "\<not> z3_eval (cmp_holds (- 1)) (Z3MkOr [Z3Cond (EQ 0), Z3Cond (EQ 1), Z3Cond (GE 2)]) \<and>
   \<not> Prove_int (Z3MkOr [Z3Cond (EQ 0), Z3Cond (EQ 1), Z3Cond (GE 2)]) \<and>
   fused_chain Prove_int 0 literal_state = None \<and>
   snd (VisitCompoundStmt Prove_int 0 literal_state) = literal_state"
proof -
  have a: "\<not> z3_eval (cmp_holds (- 1)) (Z3MkOr [Z3Cond (EQ 0), Z3Cond (EQ 1), Z3Cond (GE 2)])"
    by simp
  have b: "\<not> Prove_int (Z3MkOr [Z3Cond (EQ 0), Z3Cond (EQ 1), Z3Cond (GE 2)])"
    by (simp add: run_defs)
  have c: "fused_chain Prove_int 0 literal_state = None"
    by (simp add: ex_defs run_defs)
  from a b c VisitCompoundStmt_None[OF c] show ?thesis by simp
qed

text \<open>
  Claim C4, amended. When \<open>x\<close> is unsigned (it ranges over the integers from \<open>0\<close> on),
  the solver accepts the disjunction of the three conditions and the exclusion of each
  condition from the ones before it, and the visitor records for the block
  \<open>[ if(x==0){A} if(x==1){B} if(x>=2){C} ]\<close> the replacement
  \<open>[ if(x==0){A} else if(x==1){B} else {C} ]\<close>.
\<close>

theorem literal_block_over_unsigned_fused:
  "Prove_unsigned (Z3MkOr [Z3Cond (EQ 0), Z3Cond (EQ 1), Z3Cond (GE 2)]) \<and>
   Prove_unsigned (Z3Not (Z3And (Z3Cond (EQ 1)) (Z3MkOr [Z3Cond (EQ 0)]))) \<and>
   Prove_unsigned (Z3Not (Z3And (Z3Cond (GE 2)) (Z3MkOr [Z3Cond (EQ 0), Z3Cond (EQ 1)]))) \<and>
   fused_chain Prove_unsigned 0 literal_state = Some (2, [1, 2, 3]) \<and>
   substitutions (snd (VisitCompoundStmt Prove_unsigned 0 literal_state)) 0 = Some 7 \<and>
   tree_of 4 (heap (snd (VisitCompoundStmt Prove_unsigned 0 literal_state))) 7 =
     Some (TCompound
       [TIf (EQ 0) (TOther ''A'') (Some (TIf (EQ 1) (TOther ''B'') (Some (TOther ''C''))))])"
proof -
  have a: "Prove_unsigned (Z3MkOr [Z3Cond (EQ 0), Z3Cond (EQ 1), Z3Cond (GE 2)])"
    by (simp add: run_defs)
  have b: "Prove_unsigned (Z3Not (Z3And (Z3Cond (EQ 1)) (Z3MkOr [Z3Cond (EQ 0)])))"
    by (simp add: run_defs)
  have c: "Prove_unsigned (Z3Not (Z3And (Z3Cond (GE 2)) (Z3MkOr [Z3Cond (EQ 0), Z3Cond (EQ 1)])))"
    by (simp add: run_defs)
  have d: "fused_chain Prove_unsigned 0 literal_state = Some (2, [1, 2, 3])"
    by (simp add: ex_defs run_defs)
  have e: "substitutions (snd (VisitCompoundStmt Prove_unsigned 0 literal_state)) 0 = Some 7"
    by (simp add: ex_defs run_defs)
  have f: "tree_of 4 (heap (snd (VisitCompoundStmt Prove_unsigned 0 literal_state))) 7 =
     Some (TCompound
       [TIf (EQ 0) (TOther ''A'') (Some (TIf (EQ 1) (TOther ''B'') (Some (TOther ''C''))))])"
    by (simp add: ex_defs run_defs numeral_eq_Suc)
  from a b c d e f show ?thesis by blast
qed

text \<open>
  Claim C5. On the block \<open>[ if(x==0){A} if(x==0){B} ]\<close> both conditions hold at
  \<open>x = 0\<close>, the solver rejects the exclusion of the second condition from the first,
  the scanning loop resets the chain at the second statement, nothing is fused, and the
  visitor returns the state it was given, whatever solver it is run with: no
  substitution is recorded and no node is changed.
\<close>

theorem same_condition_block_unchanged:
  "z3_eval (cmp_holds 0) (Z3And (Z3Cond (EQ 0)) (Z3MkOr [Z3Cond (EQ 0)])) \<and>
   \<not> Prove_int (Z3Not (Z3And (Z3Cond (EQ 0)) (Z3MkOr [Z3Cond (EQ 0)]))) \<and>
   \<not> Prove_unsigned (Z3Not (Z3And (Z3Cond (EQ 0)) (Z3MkOr [Z3Cond (EQ 0)]))) \<and>
   scan Prove_int (heap same_cond_state) [1, 2] [1] [Z3Cond (EQ 0)] 1 =
     scan Prove_int (heap same_cond_state) [1, 2] [] [] (Suc 1) \<and>
   fused_chain Prove 0 same_cond_state = None \<and>
   VisitCompoundStmt Prove 0 same_cond_state = (True, same_cond_state)"
proof -
  have v: "z3_eval (cmp_holds 0) (Z3And (Z3Cond (EQ 0)) (Z3MkOr [Z3Cond (EQ 0)]))"
    by simp
  have a: "\<not> Prove_int (Z3Not (Z3And (Z3Cond (EQ 0)) (Z3MkOr [Z3Cond (EQ 0)])))"
    by (simp add: run_defs)
  have b: "\<not> Prove_unsigned (Z3Not (Z3And (Z3Cond (EQ 0)) (Z3MkOr [Z3Cond (EQ 0)])))"
    by (simp add: run_defs)
  have s: "scan Prove_int (heap same_cond_state) [1, 2] [1] [Z3Cond (EQ 0)] 1 =
     scan Prove_int (heap same_cond_state) [1, 2] [] [] (Suc 1)"
    by (subst scan.simps) (simp add: ex_defs GetZ3Cond_def a)
  have c: "fused_chain Prove 0 same_cond_state = None"
  proof (cases "fused_chain Prove 0 same_cond_state")
    case None
    then show ?thesis .
  next
    case (Some r)
    obtain i ifs where "r = (i, ifs)" by (cases r)
    with Some have "fused_chain Prove 0 same_cond_state = Some (i, ifs)" by simp
    from fused_chain_needs_three[OF this]
    have "2 < length (body_of (heap same_cond_state 0))" .
    then show ?thesis by (simp add: ex_defs)
  qed
  have st: "\<not> stopped same_cond_state" by (simp add: ex_defs)
  from v a b s c VisitCompoundStmt_None[OF c] st
  show ?thesis by simp
qed

text \<open>
  Claim C6, as stated, fails: fusing a chain calls \<open>setElse\<close> on the original \<open>if\<close>
  nodes while the block is being visited. After the visit the tree under the original
  block is the one drawn in the comment at source lines 110 to 118: each chain member
  but the last carries the rest of the chain as its else branch.
\<close>

theorem traversal_sets_else_in_place_counterexample:
  "tree_of 4 (heap literal_state) 0 =
     Some (TCompound [TIf (EQ 0) (TOther ''A'') None, TIf (EQ 1) (TOther ''B'') None,
                      TIf (GE 2) (TOther ''C'') None]) \<and>
   tree_of 4 (heap (snd (VisitCompoundStmt Prove_unsigned 0 literal_state))) 0 =
     Some (TCompound
       [TIf (EQ 0) (TOther ''A'') (Some (TIf (EQ 1) (TOther ''B'') (Some (TOther ''C'')))),
        TIf (EQ 1) (TOther ''B'') (Some (TOther ''C'')),
        TIf (GE 2) (TOther ''C'') None]) \<and>
   heap literal_state 1 = IfStmt (EQ 0) 4 None \<and>
   heap (snd (VisitCompoundStmt Prove_unsigned 0 literal_state)) 1 = IfStmt (EQ 0) 4 (Some 2)"
proof -
  have a: "tree_of 4 (heap literal_state) 0 =
     Some (TCompound [TIf (EQ 0) (TOther ''A'') None, TIf (EQ 1) (TOther ''B'') None,
                      TIf (GE 2) (TOther ''C'') None])"
    by (simp add: ex_defs numeral_eq_Suc)
  have b: "tree_of 4 (heap (snd (VisitCompoundStmt Prove_unsigned 0 literal_state))) 0 =
     Some (TCompound
       [TIf (EQ 0) (TOther ''A'') (Some (TIf (EQ 1) (TOther ''B'') (Some (TOther ''C'')))),
        TIf (EQ 1) (TOther ''B'') (Some (TOther ''C'')),
        TIf (GE 2) (TOther ''C'') None])"
    by (simp add: ex_defs run_defs numeral_eq_Suc)
  have c: "heap literal_state 1 = IfStmt (EQ 0) 4 None"
    by (simp add: ex_defs)
  have d: "heap (snd (VisitCompoundStmt Prove_unsigned 0 literal_state)) 1 =
      IfStmt (EQ 0) 4 (Some 2)"
    by (simp add: ex_defs run_defs)
  from a b c d show ?thesis by blast
qed

text \<open>
  Claim C6, amended. One visit of a block changes an existing node in one way only: it
  sets the else branch of an else-less \<open>if\<close> statement that is a child of the visited
  block. Every other existing node, the visited block with its list of children
  included, stays as it is, and no ledger entry but the visited block's own changes.
  When no chain is fused, the state does not change at all.
\<close>

theorem visit_changes_only_else_of_chain_members:
  "(\<forall>a. a \<noteq> next_addr st \<longrightarrow>
      heap (snd (VisitCompoundStmt Prove compound st)) a = heap st a \<or>
      (a \<in> set (body_of (heap st compound)) \<and> is_plain_if (heap st a) \<and>
       (\<exists>e. heap (snd (VisitCompoundStmt Prove compound st)) a = setElse (heap st a) e))) \<and>
   (fused_chain Prove compound st = None \<longrightarrow>
      snd (VisitCompoundStmt Prove compound st) = st) \<and>
   (\<forall>k. k \<noteq> compound \<longrightarrow>
      substitutions (snd (VisitCompoundStmt Prove compound st)) k = substitutions st k)"
proof (cases "fused_chain Prove compound st")
  case None
  from VisitCompoundStmt_None[OF None] show ?thesis using None by simp
next
  case (Some r)
  obtain i ifs where r: "r = (i, ifs)" by (cases r)
  with Some have fused: "fused_chain Prove compound st = Some (i, ifs)" by simp
  let ?body = "body_of (heap st compound)"
  let ?st' = "snd (VisitCompoundStmt Prove compound st)"
  from fused_chain_body[OF fused] obtain pre where
    body: "?body = pre @ ifs @ drop (Suc i) ?body" and i: "Suc i = length pre + length ifs"
    by blast
  note res = VisitCompoundStmt_Some[OF fused body i]
  have sub: "set ifs \<subseteq> set ?body"
    by (subst body) auto
  have ne: "ifs \<noteq> []" using fused_chain_facts(3)[OF fused] by auto
  have plain: "\<And>a. a \<in> set ifs \<Longrightarrow> is_plain_if (heap st a)"
    using fused_chain_facts(1)[OF fused] unfolding chain_ok_def by blast
  have first: "ifs ! 0 \<in> set ifs" using ne by simp
  have p1: "\<forall>a. a \<noteq> next_addr st \<longrightarrow>
      heap ?st' a = heap st a \<or>
      (a \<in> set ?body \<and> is_plain_if (heap st a) \<and> (\<exists>e. heap ?st' a = setElse (heap st a) e))"
  proof (intro allI impI)
    fix a assume a: "a \<noteq> next_addr st"
    then have eq: "heap ?st' a = link_chain (heap st) ifs (ifs ! 0) ifs a"
      by (simp add: res)
    from link_chain_frame[of "heap st" ifs "ifs ! 0" ifs a]
    show "heap ?st' a = heap st a \<or>
      (a \<in> set ?body \<and> is_plain_if (heap st a) \<and> (\<exists>e. heap ?st' a = setElse (heap st a) e))"
    proof
      assume "link_chain (heap st) ifs (ifs ! 0) ifs a = heap st a"
      with eq show ?thesis by simp
    next
      assume r: "a \<in> set (ifs ! 0 # ifs) \<and>
        (\<exists>e. link_chain (heap st) ifs (ifs ! 0) ifs a = setElse (heap st a) e)"
      with first have "a \<in> set ifs" by auto
      with r eq sub plain show ?thesis by auto
    qed
  qed
  have p3: "\<forall>k. k \<noteq> compound \<longrightarrow> substitutions ?st' k = substitutions st k"
    by (simp add: res)
  from p1 p3 fused show ?thesis by simp
qed

theorem visit_changes_only_else_of_chain_members_witness:
  "1 \<noteq> next_addr literal_state \<and> 0 \<noteq> next_addr literal_state \<and>
   heap (snd (VisitCompoundStmt Prove_unsigned 0 literal_state)) 0 = CompoundStmt [1, 2, 3] \<and>
   heap (snd (VisitCompoundStmt Prove_unsigned 0 literal_state)) 1 =
     setElse (heap literal_state 1) 2 \<and>
   fused_chain Prove_int 0 literal_state = None \<and>
   snd (VisitCompoundStmt Prove_int 0 literal_state) = literal_state \<and>
   substitutions (snd (VisitCompoundStmt Prove_unsigned 0 literal_state)) 1 = None"
proof -
  let ?st' = "snd (VisitCompoundStmt Prove_unsigned 0 literal_state)"
  note inst = visit_changes_only_else_of_chain_members[of literal_state Prove_unsigned 0]
  have n1: "1 \<noteq> next_addr literal_state" and n0: "0 \<noteq> next_addr literal_state"
    by (simp_all add: ex_defs)
  from inst n0 have "heap ?st' 0 = heap literal_state 0 \<or>
      (0 \<in> set (body_of (heap literal_state 0)) \<and> is_plain_if (heap literal_state 0) \<and>
       (\<exists>e. heap ?st' 0 = setElse (heap literal_state 0) e))"
    by blast
  then have a: "heap ?st' 0 = CompoundStmt [1, 2, 3]"
    by (simp add: ex_defs is_plain_if_def)
  from inst n1 have "heap ?st' 1 = heap literal_state 1 \<or>
      (1 \<in> set (body_of (heap literal_state 0)) \<and> is_plain_if (heap literal_state 1) \<and>
       (\<exists>e. heap ?st' 1 = setElse (heap literal_state 1) e))"
    by blast
  moreover have "heap ?st' 1 = IfStmt (EQ 0) 4 (Some 2)"
    by (simp add: ex_defs run_defs)
  ultimately have b: "heap ?st' 1 = setElse (heap literal_state 1) 2"
    by (simp add: ex_defs)
  have c: "fused_chain Prove_int 0 literal_state = None"
    by (simp add: ex_defs run_defs)
  from visit_changes_only_else_of_chain_members[of literal_state Prove_int 0] c
  have d: "snd (VisitCompoundStmt Prove_int 0 literal_state) = literal_state"
    by blast
  have "(1::nat) \<noteq> 0" by simp
  with inst have "substitutions ?st' 1 = substitutions literal_state 1" by blast
  then have e: "substitutions ?st' 1 = None" by (simp add: ex_defs)
  from n1 n0 a b c d e show ?thesis by blast
qed

text \<open>
  Claim C7, as stated, fails. The replacement recorded for the outer block 0 is a new
  block whose only child is node 1, the first \<open>if\<close> statement of the original block
  itself, so the replacement shares that node (and all below it) with the tree under the
  original block. Below node 1 lies the inner block 4, which is a key of the same ledger:
  a key is a descendant of another key's replacement. This holds in whichever order the
  two blocks are visited.
\<close>

theorem replacement_shares_nodes_counterexample:
  "substitutions nested_inner_first 0 = Some 14 \<and>
   substitutions nested_inner_first 4 = Some 13 \<and>
   1 \<in> set (subtree 1 (heap nested_inner_first) 14) \<and>
   1 \<in> set (subtree 1 (heap nested_inner_first) 0) \<and>
   4 \<in> set (subtree 2 (heap nested_inner_first) 14) \<and>
   substitutions nested_outer_first 0 = Some 13 \<and>
   substitutions nested_outer_first 4 = Some 14 \<and>
   1 \<in> set (subtree 1 (heap nested_outer_first) 13) \<and>
   1 \<in> set (subtree 1 (heap nested_outer_first) 0) \<and>
   4 \<in> set (subtree 2 (heap nested_outer_first) 13)"
proof -
  have two: "(2::nat) = Suc (Suc 0)" by simp
  from nested_inner_then_outer have
    "1 \<in> set (subtree 1 (heap nested_inner_first) 14)"
    "1 \<in> set (subtree 1 (heap nested_inner_first) 0)"
    "4 \<in> set (subtree 2 (heap nested_inner_first) 14)"
    unfolding two by simp_all
  moreover from nested_outer_then_inner have
    "1 \<in> set (subtree 1 (heap nested_outer_first) 13)"
    "1 \<in> set (subtree 1 (heap nested_outer_first) 0)"
    "4 \<in> set (subtree 2 (heap nested_outer_first) 13)"
    unfolding two by simp_all
  ultimately show ?thesis
    using nested_inner_then_outer nested_outer_then_inner by blast
qed

text \<open>
  Claim C7, amended. The replacement recorded for a block is a newly created block node,
  at the address the allocator hands out next; it has at least one child and all its
  children are children of the key block (the nodes themselves). When all keys and
  values of the ledger and the visited block are existing nodes (below the allocation
  pointer), this stays so, the new replacement is no key of the ledger, and it is the
  value of no key but the visited block.
\<close>

theorem replacement_is_new_block_of_original_children:
  assumes fused: "fused_chain Prove compound st = Some (i, ifs)"
  shows "substitutions (snd (VisitCompoundStmt Prove compound st)) compound = Some (next_addr st) \<and>
    next_addr (snd (VisitCompoundStmt Prove compound st)) = Suc (next_addr st) \<and>
    (\<exists>b. heap (snd (VisitCompoundStmt Prove compound st)) (next_addr st) = CompoundStmt b \<and>
         b \<noteq> [] \<and> set b \<subseteq> set (body_of (heap st compound))) \<and>
    ((\<forall>k v. substitutions st k = Some v \<longrightarrow> k < next_addr st \<and> v < next_addr st) \<and>
     compound < next_addr st \<longrightarrow>
       (\<forall>k v. substitutions (snd (VisitCompoundStmt Prove compound st)) k = Some v \<longrightarrow>
          k < next_addr (snd (VisitCompoundStmt Prove compound st)) \<and>
          v < next_addr (snd (VisitCompoundStmt Prove compound st))) \<and>
       substitutions (snd (VisitCompoundStmt Prove compound st)) (next_addr st) = None \<and>
       (\<forall>k. substitutions (snd (VisitCompoundStmt Prove compound st)) k = Some (next_addr st)
          \<longrightarrow> k = compound))"
proof -
  let ?body = "body_of (heap st compound)"
  let ?st' = "snd (VisitCompoundStmt Prove compound st)"
  from fused_chain_body[OF fused] obtain pre where
    body: "?body = pre @ ifs @ drop (Suc i) ?body" and i: "Suc i = length pre + length ifs"
    by blast
  note res = VisitCompoundStmt_Some[OF fused body i]
  have ne: "ifs \<noteq> []" using fused_chain_facts(3)[OF fused] by auto
  have p1: "substitutions ?st' compound = Some (next_addr st)" by (simp add: res)
  have p2: "next_addr ?st' = Suc (next_addr st)" by (simp add: res)
  have hd: "hd ifs \<in> set ?body"
    using ne by (subst body) simp
  have "set (drop (Suc i) ?body) \<subseteq> set ?body" by (rule set_drop_subset)
  moreover have "set pre \<subseteq> set ?body" by (subst body) simp
  ultimately have sub: "set (pre @ hd ifs # drop (Suc i) ?body) \<subseteq> set ?body"
    using hd by simp
  have p3: "\<exists>b. heap ?st' (next_addr st) = CompoundStmt b \<and> b \<noteq> [] \<and> set b \<subseteq> set ?body"
  proof (intro exI conjI)
    show "heap ?st' (next_addr st) = CompoundStmt (pre @ hd ifs # drop (Suc i) ?body)"
      by (simp add: res)
    show "pre @ hd ifs # drop (Suc i) ?body \<noteq> []" by simp
    show "set (pre @ hd ifs # drop (Suc i) ?body) \<subseteq> set ?body" by (rule sub)
  qed
  have p4: "(\<forall>k v. substitutions ?st' k = Some v \<longrightarrow> k < next_addr ?st' \<and> v < next_addr ?st') \<and>
       substitutions ?st' (next_addr st) = None \<and>
       (\<forall>k. substitutions ?st' k = Some (next_addr st) \<longrightarrow> k = compound)"
    if inv: "\<forall>k v. substitutions st k = Some v \<longrightarrow> k < next_addr st \<and> v < next_addr st"
      and c: "compound < next_addr st"
  proof (intro conjI allI impI)
    fix k v assume "substitutions ?st' k = Some v"
    then have "(k = compound \<and> v = next_addr st) \<or> substitutions st k = Some v"
      by (auto simp: res split: if_splits)
    with inv c show "k < next_addr ?st'" and "v < next_addr ?st'"
      unfolding p2 by (auto simp: less_Suc_eq)
  next
    have "substitutions st (next_addr st) = None"
    proof (cases "substitutions st (next_addr st)")
      case None then show ?thesis .
    next
      case (Some v)
      with inv have "next_addr st < next_addr st" by blast
      then show ?thesis by simp
    qed
    with c show "substitutions ?st' (next_addr st) = None" by (simp add: res)
  next
    fix k assume k: "substitutions ?st' k = Some (next_addr st)"
    show "k = compound"
    proof (rule ccontr)
      assume "k \<noteq> compound"
      with k have "substitutions st k = Some (next_addr st)" by (simp add: res)
      with inv have "next_addr st < next_addr st" by blast
      then show False by simp
    qed
  qed
  from p1 p2 p3 p4 show ?thesis by blast
qed

theorem replacement_is_new_block_of_original_children_witness:
  "fused_chain Prove_unsigned 0 (snd (VisitCompoundStmt Prove_unsigned 4 nested_state)) =
     Some (2, [1, 2, 3]) \<and>
   substitutions (snd (VisitCompoundStmt Prove_unsigned 4 nested_state)) 4 = Some 13 \<and>
   next_addr (snd (VisitCompoundStmt Prove_unsigned 4 nested_state)) = 14 \<and>
   substitutions nested_inner_first 0 = Some 14 \<and>
   next_addr nested_inner_first = 15 \<and>
   heap nested_inner_first 14 = CompoundStmt [1] \<and>
   substitutions nested_inner_first 14 = None \<and>
   substitutions nested_inner_first 4 \<noteq> Some 14"
proof -
  let ?st1 = "snd (VisitCompoundStmt Prove_unsigned 4 nested_state)"
  have st1: "?st1 =
   \<lparr>heap = nested_heap(7 := IfStmt (EQ 0) 10 (Some 8), 8 := IfStmt (EQ 1) 11 (Some 12),
        13 := CompoundStmt [7]),
    next_addr = 14, substitutions = [4 \<mapsto> 13], stopped = False\<rparr>"
    by (simp add: nested_state_def nested_heap_def run_defs fun_upd_twist)
  have chain: "fused_chain Prove_unsigned 0 ?st1 = Some (2, [1, 2, 3])"
    unfolding st1 by (simp add: nested_heap_def run_defs)
  have s4: "substitutions ?st1 4 = Some 13" and n1: "next_addr ?st1 = 14"
    unfolding st1 by simp_all
  have inv: "(\<forall>k v. substitutions ?st1 k = Some v \<longrightarrow> k < next_addr ?st1 \<and> v < next_addr ?st1) \<and>
     0 < next_addr ?st1"
    unfolding st1 by (simp split: if_splits)
  note inst = replacement_is_new_block_of_original_children[OF chain, folded nested_inner_first_def]
  from inst n1 have a: "substitutions nested_inner_first 0 = Some 14"
    and b: "next_addr nested_inner_first = 15"
    by simp_all
  from inst inv n1 have c: "substitutions nested_inner_first 14 = None"
    and d: "\<forall>k. substitutions nested_inner_first k = Some 14 \<longrightarrow> k = 0"
    by simp_all
  from d have e: "substitutions nested_inner_first 4 \<noteq> Some 14" by auto
  have f: "heap nested_inner_first 14 = CompoundStmt [1]"
    using nested_inner_then_outer by simp
  from chain s4 n1 a b c e f show ?thesis by blast
qed




section \<open>The claims about the field renamer\<close>

text \<open>
  Claim C9. When the visitor finds no IR type recorded for the record declaration it
  visits, it fails with the fatal check of line 33, whatever the rest of the state is:
  it neither skips the declaration nor renames anything.
\<close>

theorem missing_type_information_is_fatal:
  "decls st decl = None \<Longrightarrow>
   VisitRecordDecl decl st = Inl (CheckFailed ''Type information not present for declaration'')"
  by (simp add: VisitRecordDecl_def)

theorem missing_type_information_is_fatal_witness:
  "decls struct_state ''T'' = None \<and>
   VisitRecordDecl ''T'' struct_state =
     Inl (CheckFailed ''Type information not present for declaration'')"
proof -
  have none: "decls struct_state ''T'' = None" by (simp add: struct_state_def)
  from missing_type_information_is_fatal[OF none] none show ?thesis by simp
qed

text \<open>
  Claim C10. For a record declaration whose IR type has a composite debug-info type with
  derived-type elements only, the visitor reads past the end of the element list exactly
  when the list is shorter than the list of fields; when it is not shorter, the visitor
  succeeds and the \<open>i\<close>-th field is renamed from the \<open>i\<close>-th element, for every index
  \<open>i\<close> below the number of fields.
\<close>

theorem field_renaming_indexes_di_elements_unguarded:
  assumes "decls st decl = Some ty"
    and "types st ty = Some (DICompositeType els)"
    and "list_all (\<lambda>e. e \<noteq> DIOtherNode) els"
  shows "(VisitRecordDecl decl st = Inl OutOfBounds \<longleftrightarrow>
            length els < length (fields_of st decl)) \<and>
         (length (fields_of st decl) \<le> length els \<longrightarrow>
            (\<exists>names. VisitRecordDecl decl st =
                 Inr (True, st\<lparr>fields_of := (fields_of st)(decl := names)\<rparr>) \<and>
               length names = length (fields_of st decl) \<and>
               (\<forall>i < length (fields_of st decl).
                  names ! i = renamed (map getName els) (fields_of st decl) i)))"
proof -
  let ?di = "map getName els"
  let ?fs = "fields_of st decl"
  have visit: "VisitRecordDecl decl st =
     (case rename_loop ?di {} 0 ?fs of
        Inl e \<Rightarrow> Inl e
      | Inr names \<Rightarrow> Inr (True, st\<lparr>fields_of := (fields_of st)(decl := names)\<rparr>))"
    using assms by (simp add: VisitRecordDecl_def cast_elements_def)
  show ?thesis
  proof (cases "length els < length ?fs")
    case True
    then have "rename_loop ?di {} 0 ?fs = Inl OutOfBounds"
      by (intro rename_loop_out_of_bounds) simp_all
    with visit True show ?thesis by simp
  next
    case False
    then have le: "length ?fs \<le> length ?di" by simp
    from rename_loop_in_bounds[OF le, of "{}" 0]
    obtain r where r: "rename_loop ?di {} 0 ?fs = Inr r" and len: "length r = length ?fs"
      and nth: "\<forall>j < length ?fs. r ! j = renamed ?di ?fs j"
      by auto
    from visit r have "VisitRecordDecl decl st =
        Inr (True, st\<lparr>fields_of := (fields_of st)(decl := r)\<rparr>)" by simp
    with len nth False show ?thesis by auto
  qed
qed

theorem field_renaming_indexes_di_elements_unguarded_witness:
  "decls struct_state ''S'' = Some 0 \<and>
   types struct_state 0 =
     Some (DICompositeType [DIDerivedType ''x'', DIDerivedType ''y'', DIDerivedType ''x'']) \<and>
   VisitRecordDecl ''S'' struct_state =
     Inr (True, struct_state\<lparr>fields_of :=
       (fields_of struct_state)(''S'' := [''x'', ''y'', ''x_field2''])\<rparr>) \<and>
   decls struct_state ''U'' = Some 1 \<and>
   types struct_state 1 = Some (DICompositeType [DIDerivedType ''a'']) \<and>
   length (fields_of struct_state ''U'') = 2 \<and>
   VisitRecordDecl ''U'' struct_state = Inl OutOfBounds"
proof -
  have dS: "decls struct_state ''S'' = Some 0"
    and tS: "types struct_state 0 =
      Some (DICompositeType [DIDerivedType ''x'', DIDerivedType ''y'', DIDerivedType ''x''])"
    and aS: "list_all (\<lambda>e. e \<noteq> DIOtherNode) [DIDerivedType ''x'', DIDerivedType ''y'', DIDerivedType ''x'']"
    and fS: "fields_of struct_state ''S'' = [''field0'', ''field1'', ''field2'']"
    by (simp_all add: struct_state_def)
  have dU: "decls struct_state ''U'' = Some 1"
    and tU: "types struct_state 1 = Some (DICompositeType [DIDerivedType ''a''])"
    and aU: "list_all (\<lambda>e. e \<noteq> DIOtherNode) [DIDerivedType ''a'']"
    and fU: "length (fields_of struct_state ''U'') = 2"
    by (simp_all add: struct_state_def)
  from field_renaming_indexes_di_elements_unguarded[OF dS tS aS]
  obtain names where v: "VisitRecordDecl ''S'' struct_state =
        Inr (True, struct_state\<lparr>fields_of := (fields_of struct_state)(''S'' := names)\<rparr>)"
    and len: "length names = 3"
    and nth: "\<forall>i < 3. names ! i = renamed [''x'', ''y'', ''x''] [''field0'', ''field1'', ''field2''] i"
    unfolding fS by auto
  have n: "names ! 0 = ''x''" "names ! 1 = ''y''" "names ! 2 = ''x_field2''"
    using nth renamed_S by simp_all
  from len obtain a b c where abc: "names = [a, b, c]"
    by (auto simp: length_Suc_conv numeral_3_eq_3)
  from n have "names = [''x'', ''y'', ''x_field2'']"
    unfolding abc by (simp add: numeral_2_eq_2)
  with v have a: "VisitRecordDecl ''S'' struct_state =
     Inr (True, struct_state\<lparr>fields_of :=
       (fields_of struct_state)(''S'' := [''x'', ''y'', ''x_field2''])\<rparr>)" by simp
  from field_renaming_indexes_di_elements_unguarded[OF dU tU aU] fU
  have b: "VisitRecordDecl ''U'' struct_state = Inl OutOfBounds" by simp
  from dS tS a dU tU fU b show ?thesis by blast
qed

end
